theory Spec2Isabelle
  imports Main
begin

section \<open>Three-valued logic\<close>

text \<open>
  Ariadne's validated Kleenean and its lower and upper variants carry one of three
  verdicts.  The code projects them to \<open>bool\<close> only through \<open>definitely\<close> and
  \<open>possibly\<close>, and negates them with \<open>!\<close>.
\<close>

datatype kleenean = KTrue | KFalse | KIndeterminate

fun definitely :: "kleenean \<Rightarrow> bool" where
  "definitely KTrue = True"
| "definitely KFalse = False"
| "definitely KIndeterminate = False"

fun possibly :: "kleenean \<Rightarrow> bool" where
  "possibly KTrue = True"
| "possibly KFalse = False"
| "possibly KIndeterminate = True"

fun knot :: "kleenean \<Rightarrow> kleenean" where
  "knot KTrue = KFalse"
| "knot KFalse = KTrue"
| "knot KIndeterminate = KIndeterminate"

type_synonym effort = nat

section \<open>The numeric kernel\<close>

text \<open>
  The operations of the Ariadne library that the two headers call, taken as parameters:
  \<open>'b\<close> is the enclosure (box) type, \<open>'p\<close> the validated point type, \<open>'c\<close> the
  constraint set and \<open>'d\<close> the vector function of the dynamics.
\<close>

record ('b, 'p, 'c, 'd) kernel =
  overlaps_check :: "'c \<Rightarrow> 'b \<Rightarrow> effort \<Rightarrow> kleenean"
    \<comment> \<open>\<open>constraints.overlaps( e ).check( effort )\<close>\<close>
  box_eq_check :: "'b \<Rightarrow> 'b \<Rightarrow> effort \<Rightarrow> kleenean"
    \<comment> \<open>\<open>( b1 == b2 ).check( effort )\<close>\<close>
  box_neq :: "'b \<Rightarrow> 'b \<Rightarrow> kleenean"
    \<comment> \<open>\<open>b1 != b2\<close>\<close>
  intersection :: "'b \<Rightarrow> 'b \<Rightarrow> 'b"
    \<comment> \<open>\<open>Ariadne::intersection( b1, b2 )\<close>\<close>
  is_empty :: "'b \<Rightarrow> kleenean"
    \<comment> \<open>\<open>b.is_empty()\<close>\<close>
  box_image :: "'b \<Rightarrow> 'd \<Rightarrow> 'b"
    \<comment> \<open>\<open>Ariadne::image( b, f )\<close>, an outer enclosure\<close>
  box_contains :: "'b \<Rightarrow> 'p \<Rightarrow> kleenean"
    \<comment> \<open>\<open>b.contains( pt )\<close>\<close>
  centre :: "'b \<Rightarrow> 'p"
    \<comment> \<open>\<open>b.centre()\<close>\<close>
  evaluate :: "'d \<Rightarrow> 'p \<Rightarrow> 'p"
    \<comment> \<open>\<open>f.evaluate( pt )\<close>\<close>
  zero_box :: "'b"
    \<comment> \<open>\<open>Box::zero( 0 )\<close>, the box of a default-constructed tree value\<close>

section \<open>Tree values\<close>

text \<open>
  \<open>TreeValue\<close> of refinementTree.hpp holds a box and the safety flag.  The value
  that cegar.hpp reads through \<open>nodeValue\<close> also answers \<open>id()\<close>.
\<close>

record 'b TreeValue =
  mEnclosure :: 'b
  mSafe :: kleenean

record 'b InteriorTreeValue = "'b TreeValue" +
  mId :: nat

section \<open>Errors\<close>

text \<open>
  \<open>LogicError\<close> is the \<open>std::logic_error\<close> that \<open>imageRecursive\<close> and \<open>leaves\<close>
  throw.  The other three stand for behaviour that C++ leaves undefined or that the
  tree library refuses: a handle that denotes no vertex or no tree node, \<open>expand\<close> on
  an interior node, and a strategy that returns more boxes than the array
  \<open>tvals\<close> has slots.
\<close>

datatype error = LogicError | InvalidHandle | NotALeaf | ArityOverflow

fun collect :: "(error + 'a list) list \<Rightarrow> error + 'a list" where
  "collect [] = Inr []"
| "collect (r # rs) =
     (case r of
        Inl e \<Rightarrow> Inl e
      | Inr xs \<Rightarrow> (case collect rs of Inl e \<Rightarrow> Inl e | Inr ys \<Rightarrow> Inr (xs @ ys)))"

section \<open>The fixed-branch tree\<close>

text \<open>
  Modelled from the spec: linkedFixedBranchTree.hpp is not among the sources.  The spec
  gives the operations \<open>root\<close>, \<open>value\<close>, \<open>is_leaf\<close>, \<open>children\<close>, \<open>expand\<close>
  (which fails unless the node is a leaf) and the size as the total node count, and
  says that the identity of a node is its position in the tree.  A node handle is
  therefore the list of child indices that leads from the root to the node.
\<close>

datatype 'v FixedBranchTree = TreeNode 'v "'v FixedBranchTree list"

type_synonym tnode = "nat list"

definition branchN :: nat where
  "branchN = 2"

fun subtree :: "'v FixedBranchTree \<Rightarrow> tnode \<Rightarrow> 'v FixedBranchTree option" where
  "subtree t [] = Some t"
| "subtree (TreeNode v cs) (i # p) = (if i < length cs then subtree (cs ! i) p else None)"

definition tree_root :: tnode where
  "tree_root = []"

definition tree_value :: "'v FixedBranchTree \<Rightarrow> tnode \<Rightarrow> 'v option" where
  "tree_value t n = (case subtree t n of None \<Rightarrow> None | Some (TreeNode v cs) \<Rightarrow> Some v)"

definition tree_isLeaf :: "'v FixedBranchTree \<Rightarrow> tnode \<Rightarrow> bool" where
  "tree_isLeaf t n = (case subtree t n of None \<Rightarrow> False | Some (TreeNode v cs) \<Rightarrow> cs = [])"

definition tree_children :: "'v FixedBranchTree \<Rightarrow> tnode \<Rightarrow> tnode list" where
  "tree_children t n =
     (case subtree t n of
        None \<Rightarrow> []
      | Some (TreeNode v cs) \<Rightarrow> map (\<lambda>i. n @ [i]) [0..<length cs])"

fun tree_expand :: "'v FixedBranchTree \<Rightarrow> tnode \<Rightarrow> 'v list \<Rightarrow> 'v FixedBranchTree option" where
  "tree_expand (TreeNode v cs) [] vals =
     (if cs = [] then Some (TreeNode v (map (\<lambda>w. TreeNode w []) vals)) else None)"
| "tree_expand (TreeNode v cs) (i # p) vals =
     (if i < length cs
      then (case tree_expand (cs ! i) p vals of
              None \<Rightarrow> None
            | Some c \<Rightarrow> Some (TreeNode v (cs[i := c])))
      else None)"

fun tree_size :: "'v FixedBranchTree \<Rightarrow> nat" where
  "tree_size (TreeNode v cs) = Suc (sum_list (map tree_size cs))"

definition subtree_size :: "'v FixedBranchTree \<Rightarrow> tnode \<Rightarrow> nat" where
  "subtree_size t n = (case subtree t n of None \<Rightarrow> 0 | Some s \<Rightarrow> tree_size s)"

section \<open>The adjacency digraph\<close>

text \<open>
  Modelled from the spec: adjacencyDiGraph.hpp is not among the sources.  The spec gives
  a directed graph with a value attached to each vertex and the operations
  \<open>add_vertex(value)\<close> returning a handle, \<open>remove_vertex(handle)\<close> that also removes
  the incident edges, an idempotent \<open>add_edge(src, trg)\<close> that allows self-loops,
  \<open>in_edges\<close>, \<open>out_edges\<close> and \<open>find_vertex(value)\<close>; handles stay valid across
  unrelated insertions and removals.  A handle is a number that \<open>addVertex\<close> never
  hands out twice; vertices and edges are kept in insertion order.
\<close>

type_synonym vertex = nat

record 'a AdjacencyDiGraph =
  gverts :: "(vertex \<times> 'a) list"
  gedges :: "(vertex \<times> vertex) list"
  gnext :: nat

definition emptyGraph :: "'a AdjacencyDiGraph" where
  "emptyGraph = \<lparr>gverts = [], gedges = [], gnext = 0\<rparr>"

definition addVertex :: "'a AdjacencyDiGraph \<Rightarrow> 'a \<Rightarrow> 'a AdjacencyDiGraph \<times> vertex" where
  "addVertex g val =
     (g\<lparr>gverts := gverts g @ [(gnext g, val)], gnext := Suc (gnext g)\<rparr>, gnext g)"

definition removeVertex :: "'a AdjacencyDiGraph \<Rightarrow> vertex \<Rightarrow> 'a AdjacencyDiGraph" where
  "removeVertex g v =
     g\<lparr>gverts := filter (\<lambda>(h, val). h \<noteq> v) (gverts g),
       gedges := filter (\<lambda>(s, t). s \<noteq> v \<and> t \<noteq> v) (gedges g)\<rparr>"

definition addEdge :: "'a AdjacencyDiGraph \<Rightarrow> vertex \<Rightarrow> vertex \<Rightarrow> 'a AdjacencyDiGraph" where
  "addEdge g s t = (if (s, t) \<in> set (gedges g) then g else g\<lparr>gedges := gedges g @ [(s, t)]\<rparr>)"

definition findVertex :: "'a AdjacencyDiGraph \<Rightarrow> 'a \<Rightarrow> vertex option" where
  "findVertex g val = map_option fst (find (\<lambda>(h, x). x = val) (gverts g))"

definition graph_value :: "'a AdjacencyDiGraph \<Rightarrow> vertex \<Rightarrow> 'a option" where
  "graph_value g v = map_of (gverts g) v"

definition inEdges :: "'a AdjacencyDiGraph \<Rightarrow> vertex \<Rightarrow> (vertex \<times> vertex) list" where
  "inEdges g v = filter (\<lambda>(s, t). t = v) (gedges g)"

definition outEdges :: "'a AdjacencyDiGraph \<Rightarrow> vertex \<Rightarrow> (vertex \<times> vertex) list" where
  "outEdges g v = filter (\<lambda>(s, t). s = v) (gedges g)"

section \<open>refinementTree.hpp\<close>

record ('b, 'c, 'd) RefinementTree =
  mConstraints :: 'c
  mDynamics :: 'd
  mEffort :: effort
  mRefinements :: "'b TreeValue FixedBranchTree"
  mMappings :: "tnode AdjacencyDiGraph"

text \<open>The accessors \<open>constraints()\<close>, \<open>dynamics()\<close>, \<open>tree()\<close> and \<open>leafMapping()\<close>.\<close>

definition constraints :: "('b, 'c, 'd) RefinementTree \<Rightarrow> 'c" where
  "constraints rt = mConstraints rt"

definition dynamics :: "('b, 'c, 'd) RefinementTree \<Rightarrow> 'd" where
  "dynamics rt = mDynamics rt"

definition tree :: "('b, 'c, 'd) RefinementTree \<Rightarrow> 'b TreeValue FixedBranchTree" where
  "tree rt = mRefinements rt"


text \<open>\<open>TreeValue()\<close>: the zero box, not safe.\<close>

definition defaultTreeValue :: "('b, 'p, 'c, 'd) kernel \<Rightarrow> 'b TreeValue" where
  "defaultTreeValue k = \<lparr>mEnclosure = zero_box k, mSafe = KFalse\<rparr>"

definition nodeValue :: "('b, 'c, 'd) RefinementTree \<Rightarrow> vertex \<Rightarrow> error + 'b TreeValue" where
  "nodeValue rt v =
     (case graph_value (mMappings rt) v of
        None \<Rightarrow> Inl InvalidHandle
      | Some treev \<Rightarrow>
          (case tree_value (mRefinements rt) treev of
             None \<Rightarrow> Inl InvalidHandle
           | Some tv \<Rightarrow> Inr tv))"

definition nodesEqual ::
  "('b, 'p, 'c, 'd) kernel \<Rightarrow> ('b, 'c, 'd) RefinementTree \<Rightarrow> vertex \<Rightarrow> vertex \<Rightarrow> error + kleenean" where
  "nodesEqual k rt n1 n2 =
     (case nodeValue rt n1 of
        Inl e \<Rightarrow> Inl e
      | Inr tv1 \<Rightarrow>
          (case nodeValue rt n2 of
             Inl e \<Rightarrow> Inl e
           | Inr tv2 \<Rightarrow> Inr (box_eq_check k (mEnclosure tv1) (mEnclosure tv2) (mEffort rt))))"

text \<open>
  \<open>imageRecursive\<close> and \<open>leaves\<close> recurse from a node into its children; the
  subtree below a child is smaller than the subtree below the node.
\<close>

lemma subtree_append:
  "subtree t (n @ m) = (case subtree t n of None \<Rightarrow> None | Some s \<Rightarrow> subtree s m)"
proof (induction t n rule: subtree.induct)
  case (1 t)
  show ?case by simp
next
  case (2 v cs i p)
  then show ?case by simp
qed

lemma tree_size_child:
  "i < length cs \<Longrightarrow> tree_size (cs ! i) < Suc (sum_list (map tree_size cs))"
proof -
  assume "i < length cs"
  then have "cs ! i \<in> set cs" by simp
  then have "tree_size (cs ! i) \<le> sum_list (map tree_size cs)"
    by (simp add: member_le_sum_list)
  then show ?thesis by simp
qed

lemma subtree_size_children:
  "c \<in> set (tree_children t n) \<Longrightarrow> subtree_size t c < subtree_size t n"
  by (auto simp: tree_children_def subtree_size_def subtree_append tree_size_child
      split: option.splits FixedBranchTree.splits)

function imageRecursive ::
  "('b, 'p, 'c, 'd) kernel \<Rightarrow> ('b, 'c, 'd) RefinementTree \<Rightarrow> 'b \<Rightarrow> tnode \<Rightarrow> error + vertex list" where
  "imageRecursive k rt from to =
     (case tree_value (mRefinements rt) to of
        None \<Rightarrow> Inl InvalidHandle
      | Some tv \<Rightarrow>
          (let boxTo = mEnclosure tv;
               inter = intersection k from boxTo;
               isEmpty = is_empty k inter
           in if definitely isEmpty then Inr []
              else if tree_isLeaf (mRefinements rt) to then
                (case findVertex (mMappings rt) to of
                   None \<Rightarrow> Inl LogicError
                 | Some iGraphNode \<Rightarrow> Inr [iGraphNode])
              else collect (map (imageRecursive k rt from) (tree_children (mRefinements rt) to))))"
  by pat_completeness auto
termination
  by (relation "measure (\<lambda>(k, rt, from, to). subtree_size (mRefinements rt) to)")
     (auto simp: subtree_size_children)

definition image_rt ::
  "('b, 'p, 'c, 'd) kernel \<Rightarrow> ('b, 'c, 'd) RefinementTree \<Rightarrow> 'b \<Rightarrow> error + vertex list" where
  "image_rt k rt from = imageRecursive k rt from tree_root"

text \<open>The three overloads of \<open>leaves\<close>: below a tree node, below a vertex, and all.\<close>

function leavesT :: "('b, 'c, 'd) RefinementTree \<Rightarrow> tnode \<Rightarrow> error + vertex list" where
  "leavesT rt treev =
     (case tree_value (mRefinements rt) treev of
        None \<Rightarrow> Inl InvalidHandle
      | Some tv \<Rightarrow>
          if tree_isLeaf (mRefinements rt) treev then
            (case findVertex (mMappings rt) treev of
               None \<Rightarrow> Inl LogicError
             | Some iv \<Rightarrow> Inr [iv])
          else collect (map (leavesT rt) (tree_children (mRefinements rt) treev)))"
  by pat_completeness auto
termination
  by (relation "measure (\<lambda>(rt, treev). subtree_size (mRefinements rt) treev)")
     (auto simp: subtree_size_children)

definition leavesV :: "('b, 'c, 'd) RefinementTree \<Rightarrow> vertex \<Rightarrow> error + vertex list" where
  "leavesV rt v =
     (case graph_value (mMappings rt) v of
        None \<Rightarrow> Inl InvalidHandle
      | Some treev \<Rightarrow> leavesT rt treev)"

definition leaves :: "('b, 'c, 'd) RefinementTree \<Rightarrow> error + vertex list" where
  "leaves rt = leavesT rt tree_root"

definition preimage :: "('b, 'c, 'd) RefinementTree \<Rightarrow> vertex \<Rightarrow> vertex list" where
  "preimage rt from = map fst (inEdges (mMappings rt) from)"

definition postimage :: "('b, 'c, 'd) RefinementTree \<Rightarrow> vertex \<Rightarrow> vertex list" where
  "postimage rt from = map snd (outEdges (mMappings rt) from)"

definition isReachable ::
  "('b, 'p, 'c, 'd) kernel \<Rightarrow> ('b, 'c, 'd) RefinementTree \<Rightarrow> vertex \<Rightarrow> vertex \<Rightarrow> error + kleenean" where
  "isReachable k rt src trg =
     (case nodeValue rt src of
        Inl e \<Rightarrow> Inl e
      | Inr srcVal \<Rightarrow>
          (case nodeValue rt trg of
             Inl e \<Rightarrow> Inl e
           | Inr trgVal \<Rightarrow>
               (let ubMapped = box_image k (mEnclosure srcVal) (mDynamics rt);
                    mapIntersection = intersection k ubMapped (mEnclosure trgVal);
                    doesInter = knot (is_empty k mapIntersection)
                in Inr doesInter)))"

text \<open>
  The constructor: a tree of the single root, one vertex for it, and the self-loop when
  the root possibly reaches itself.
\<close>

definition newRefinementTree ::
  "('b, 'p, 'c, 'd) kernel \<Rightarrow> 'b \<Rightarrow> 'c \<Rightarrow> 'd \<Rightarrow> effort \<Rightarrow> error + ('b, 'c, 'd) RefinementTree" where
  "newRefinementTree k initial constrs dyn effort =
     (let rt0 = \<lparr>mConstraints = constrs, mDynamics = dyn, mEffort = effort,
                 mRefinements =
                   TreeNode \<lparr>mEnclosure = initial,
                             mSafe = overlaps_check k constrs initial effort\<rparr> [],
                 mMappings = emptyGraph\<rparr>;
          (g1, initialNode) = addVertex (mMappings rt0) tree_root;
          rt1 = rt0\<lparr>mMappings := g1\<rparr>
      in case isReachable k rt1 initialNode initialNode of
           Inl e \<Rightarrow> Inl e
         | Inr r \<Rightarrow>
             Inr (if possibly r
                  then rt1\<lparr>mMappings := addEdge (mMappings rt1) initialNode initialNode\<rparr>
                  else rt1))"

subsection \<open>refine\<close>

text \<open>
  The strategy is the function \<open>r.refine\<close> from a box to the list of its parts.  The
  loops of \<open>refine\<close> that add the edges are the functions below, innermost first; each
  passes the refinement tree on and stops at the first exception.  \<open>refine\<close> changes
  the refinement tree in place, so a call that throws leaves behind the tree as it is
  at that moment: the result \<open>Inl (e, rt)\<close> holds the error and that tree.
\<close>

fun addVertices ::
  "'a AdjacencyDiGraph \<Rightarrow> 'a list \<Rightarrow> 'a AdjacencyDiGraph \<times> vertex list" where
  "addVertices g [] = (g, [])"
| "addVertices g (c # cs) =
     (let (g1, ivadd) = addVertex g c;
          (g2, refinedNodes) = addVertices g1 cs
      in (g2, ivadd # refinedNodes))"

fun addPreLeafEdges ::
  "('b, 'p, 'c, 'd) kernel \<Rightarrow> ('b, 'c, 'd) RefinementTree \<Rightarrow> vertex \<Rightarrow> vertex list \<Rightarrow>
   error \<times> ('b, 'c, 'd) RefinementTree + ('b, 'c, 'd) RefinementTree" where
  "addPreLeafEdges k rt refined [] = Inr rt"
| "addPreLeafEdges k rt refined (preLeaf # others) =
     (case isReachable k rt preLeaf refined of
        Inl e \<Rightarrow> Inl (e, rt)
      | Inr r \<Rightarrow>
          addPreLeafEdges k
            (if possibly r then rt\<lparr>mMappings := addEdge (mMappings rt) preLeaf refined\<rparr> else rt)
            refined others)"

fun addPreEdges ::
  "('b, 'p, 'c, 'd) kernel \<Rightarrow> ('b, 'c, 'd) RefinementTree \<Rightarrow> vertex \<Rightarrow> vertex list \<Rightarrow>
   error \<times> ('b, 'c, 'd) RefinementTree + ('b, 'c, 'd) RefinementTree" where
  "addPreEdges k rt refined [] = Inr rt"
| "addPreEdges k rt refined (pre # others) =
     (case leavesV rt pre of
        Inl e \<Rightarrow> Inl (e, rt)
      | Inr preLeaves \<Rightarrow>
          (case addPreLeafEdges k rt refined preLeaves of
             Inl e \<Rightarrow> Inl e
           | Inr rt1 \<Rightarrow> addPreEdges k rt1 refined others))"

fun addPostLeafEdges ::
  "('b, 'p, 'c, 'd) kernel \<Rightarrow> ('b, 'c, 'd) RefinementTree \<Rightarrow> vertex \<Rightarrow> vertex list \<Rightarrow>
   error \<times> ('b, 'c, 'd) RefinementTree + ('b, 'c, 'd) RefinementTree" where
  "addPostLeafEdges k rt refined [] = Inr rt"
| "addPostLeafEdges k rt refined (postLeaf # others) =
     (case isReachable k rt refined postLeaf of
        Inl e \<Rightarrow> Inl (e, rt)
      | Inr r \<Rightarrow>
          addPostLeafEdges k
            (if possibly r then rt\<lparr>mMappings := addEdge (mMappings rt) refined postLeaf\<rparr> else rt)
            refined others)"

fun addPostEdges ::
  "('b, 'p, 'c, 'd) kernel \<Rightarrow> ('b, 'c, 'd) RefinementTree \<Rightarrow> vertex \<Rightarrow> vertex list \<Rightarrow>
   error \<times> ('b, 'c, 'd) RefinementTree + ('b, 'c, 'd) RefinementTree" where
  "addPostEdges k rt refined [] = Inr rt"
| "addPostEdges k rt refined (post # others) =
     (case leavesV rt post of
        Inl e \<Rightarrow> Inl (e, rt)
      | Inr postLeaves \<Rightarrow>
          (case addPostLeafEdges k rt refined postLeaves of
             Inl e \<Rightarrow> Inl e
           | Inr rt1 \<Rightarrow> addPostEdges k rt1 refined others))"

fun addRefinedEdges ::
  "('b, 'p, 'c, 'd) kernel \<Rightarrow> ('b, 'c, 'd) RefinementTree \<Rightarrow> vertex list \<Rightarrow> vertex list \<Rightarrow>
   vertex list \<Rightarrow> error \<times> ('b, 'c, 'd) RefinementTree + ('b, 'c, 'd) RefinementTree" where
  "addRefinedEdges k rt [] pres posts = Inr rt"
| "addRefinedEdges k rt (refined # others) pres posts =
     (case addPreEdges k rt refined pres of
        Inl e \<Rightarrow> Inl e
      | Inr rt1 \<Rightarrow>
          (case addPostEdges k rt1 refined posts of
             Inl e \<Rightarrow> Inl e
           | Inr rt2 \<Rightarrow> addRefinedEdges k rt2 others pres posts))"

text \<open>
  \<open>tvals\<close> is an array of \<open>N\<close> default-constructed tree values; \<open>std::transform\<close>
  overwrites one slot for each box of the strategy, and writes past the array when the
  strategy returns more than \<open>N\<close> boxes.
\<close>

definition refinedValues ::
  "('b, 'p, 'c, 'd) kernel \<Rightarrow> ('b, 'c, 'd) RefinementTree \<Rightarrow> 'b list \<Rightarrow> 'b TreeValue list" where
  "refinedValues k rt refined =
     map (\<lambda>e. \<lparr>mEnclosure = e, mSafe = overlaps_check k (mConstraints rt) e (mEffort rt)\<rparr>) refined
     @ replicate (branchN - length refined) (defaultTreeValue k)"

definition refine ::
  "('b, 'p, 'c, 'd) kernel \<Rightarrow> ('b, 'c, 'd) RefinementTree \<Rightarrow> vertex \<Rightarrow> ('b \<Rightarrow> 'b list) \<Rightarrow>
   error \<times> ('b, 'c, 'd) RefinementTree + ('b, 'c, 'd) RefinementTree" where
  "refine k rt v r =
     (case graph_value (mMappings rt) v of
        None \<Rightarrow> Inl (InvalidHandle, rt)
      | Some treev \<Rightarrow>
     (case tree_value (mRefinements rt) treev of
        None \<Rightarrow> Inl (InvalidHandle, rt)
      | Some tv \<Rightarrow>
     (let obox = mEnclosure tv;
          refined = r obox
      in if branchN < length refined then Inl (ArityOverflow, rt)
         else
     (case tree_expand (mRefinements rt) treev (refinedValues k rt refined) of
        None \<Rightarrow> Inl (NotALeaf, rt)
      | Some expanded \<Rightarrow>
     (let rt1 = rt\<lparr>mRefinements := expanded\<rparr>;
          cs = tree_children (mRefinements rt1) treev;
          (g2, refinedNodes) = addVertices (mMappings rt1) cs;
          rt2 = rt1\<lparr>mMappings := g2\<rparr>;
          pres = preimage rt2 v @ [v];
          posts = postimage rt2 v @ [v]
      in case addRefinedEdges k rt2 refinedNodes pres posts of
           Inl e \<Rightarrow> Inl e
         | Inr rt3 \<Rightarrow> Inr (rt3\<lparr>mMappings := removeVertex (mMappings rt3) v\<rparr>))))))"

subsection \<open>Well-formed graphs\<close>

text \<open>
  What \<open>addVertex\<close>, \<open>addEdge\<close> and \<open>removeVertex\<close> keep true of a graph: no handle
  denotes two vertices, every handle in use is below the next one to hand out, and the
  edges join vertices of the graph.
\<close>

definition graph_ok :: "'a AdjacencyDiGraph \<Rightarrow> bool" where
  "graph_ok g =
     (distinct (map fst (gverts g)) \<and>
      (\<forall>h\<in>set (map fst (gverts g)). h < gnext g) \<and>
      (\<forall>e\<in>set (gedges g). fst e \<in> set (map fst (gverts g)) \<and> snd e \<in> set (map fst (gverts g))))"

subsection \<open>Notions for stating what refine does\<close>

text \<open>
  \<open>with_edges rt es\<close> is \<open>rt\<close> with the edge list of its graph replaced.
  \<open>reaches k rt src trg\<close> is the test \<open>possibly( isReachable( src, trg ) )\<close>.
  \<open>leavesBelow rt ps\<close> are the leaves that \<open>leaves( p )\<close> returns for the vertices \<open>p\<close>
  of \<open>ps\<close>.  \<open>refineExpanded\<close> is the refinement tree in the middle of \<open>refine\<close>: the
  tree expanded and the \<open>N\<close> vertices of the children added.
\<close>

definition with_edges ::
  "('b, 'c, 'd) RefinementTree \<Rightarrow> (vertex \<times> vertex) list \<Rightarrow> ('b, 'c, 'd) RefinementTree" where
  "with_edges rt es = rt\<lparr>mMappings := (mMappings rt)\<lparr>gedges := es\<rparr>\<rparr>"

definition reaches ::
  "('b, 'p, 'c, 'd) kernel \<Rightarrow> ('b, 'c, 'd) RefinementTree \<Rightarrow> vertex \<Rightarrow> vertex \<Rightarrow> bool" where
  "reaches k rt src trg = (case isReachable k rt src trg of Inl e \<Rightarrow> False | Inr r \<Rightarrow> possibly r)"

definition leavesBelow :: "('b, 'c, 'd) RefinementTree \<Rightarrow> vertex list \<Rightarrow> vertex set" where
  "leavesBelow rt ps = {l. \<exists>p\<in>set ps. \<exists>ls. leavesV rt p = Inr ls \<and> l \<in> set ls}"

definition refineExpanded ::
  "('b, 'c, 'd) RefinementTree \<Rightarrow> tnode \<Rightarrow> 'b TreeValue FixedBranchTree \<Rightarrow> ('b, 'c, 'd) RefinementTree" where
  "refineExpanded rt treev expanded =
     rt\<lparr>mRefinements := expanded,
        mMappings := (mMappings rt)
          \<lparr>gverts := gverts (mMappings rt) @
                     zip [gnext (mMappings rt)..<gnext (mMappings rt) + branchN]
                         (tree_children expanded treev),
           gnext := gnext (mMappings rt) + branchN\<rparr>\<rparr>"

text \<open>
  \<open>descendantLeaves rt rt' ps\<close> are the leaves that the tree of \<open>rt'\<close> has below the
  tree nodes which the vertices \<open>ps\<close> denote in \<open>rt\<close>.
\<close>

definition descendantLeaves ::
  "('b, 'c, 'd) RefinementTree \<Rightarrow> ('b, 'c, 'd) RefinementTree \<Rightarrow> vertex list \<Rightarrow> vertex set" where
  "descendantLeaves rt rt' ps =
     {l. \<exists>p\<in>set ps. \<exists>treep ls.
           graph_value (mMappings rt) p = Some treep \<and> leavesT rt' treep = Inr ls \<and> l \<in> set ls}"

declare leavesT.simps [simp del]

declare imageRecursive.simps [simp del]

section \<open>The refinement tree as cegar.hpp sees it\<close>

text \<open>
  cegar.hpp is written against member functions of \<open>RefinementTree\<close> that
  refinementTree.hpp does not declare in this form (\<open>nodeValue\<close> returning an optional,
  \<open>equal\<close>, \<open>isSafe\<close>, \<open>relates\<close>, \<open>initialEnclosure\<close>, \<open>image\<close> with a
  sub-root).  They are taken as parameters: \<open>'rt\<close> is the state of the refinement tree,
  \<open>'n\<close> its node handle \<open>NodeT\<close>, \<open>'tn\<close> the handle of a node of the underlying
  tree and \<open>'rs\<close> the refinement strategy.  \<open>rt_image\<close>, \<open>rt_imageFrom\<close> and
  \<open>rt_refine\<close> may throw.
\<close>

record ('rt, 'n, 'tn, 'rs, 'b, 'p, 'd) rtree_api =
  rt_nodeValue :: "'rt \<Rightarrow> 'n \<Rightarrow> 'b InteriorTreeValue option"
  rt_equal :: "'rt \<Rightarrow> 'n \<Rightarrow> 'n \<Rightarrow> bool"
  rt_isSafe :: "'rt \<Rightarrow> 'n \<Rightarrow> kleenean"
  rt_postimage :: "'rt \<Rightarrow> 'n \<Rightarrow> 'n list"
  rt_relatesBox :: "'rt \<Rightarrow> 'n \<Rightarrow> 'b \<Rightarrow> ('b \<Rightarrow> 'b \<Rightarrow> kleenean) \<Rightarrow> kleenean"
  rt_relatesPoint :: "'rt \<Rightarrow> 'n \<Rightarrow> 'p \<Rightarrow> ('b \<Rightarrow> 'p \<Rightarrow> kleenean) \<Rightarrow> kleenean"
  rt_initialEnclosure :: "'rt \<Rightarrow> 'b"
  rt_rootEnclosure :: "'rt \<Rightarrow> 'b"
    \<comment> \<open>\<open>tree::value( rtree.tree(), tree::root( rtree.tree() ) )->getEnclosure()\<close>\<close>
  rt_dynamics :: "'rt \<Rightarrow> 'd"
  rt_size :: "'rt \<Rightarrow> nat"
    \<comment> \<open>\<open>rtree.tree().size()\<close>\<close>
  rt_treeNode :: "'rt \<Rightarrow> 'n \<Rightarrow> 'tn"
    \<comment> \<open>\<open>graph::value( rtree.leafMapping(), n )\<close> cast to \<open>InsideGraphValue\<close>, \<open>.treeNode()\<close>\<close>
  rt_image :: "'rt \<Rightarrow> 'b \<Rightarrow> error + 'n list"
  rt_imageFrom :: "'rt \<Rightarrow> 'b \<Rightarrow> 'tn \<Rightarrow> error + 'n list"
  rt_refine :: "'rt \<Rightarrow> 'n \<Rightarrow> 'rs \<Rightarrow> error + 'rt"

section \<open>cegar.hpp\<close>

subsection \<open>NodeComparator\<close>

definition NodeComparator ::
  "('rt, 'n, 'tn, 'rs, 'b, 'p, 'd) rtree_api \<Rightarrow> 'rt \<Rightarrow> 'n \<Rightarrow> 'n \<Rightarrow> bool" where
  "NodeComparator api mRtree n1 n2 =
     (let otval1 = rt_nodeValue api mRtree n1; otval2 = rt_nodeValue api mRtree n2
      in if otval1 = None \<and> otval2 = None then True
         else if otval1 = None \<or> otval2 = None then False
         else mId (the otval1) < mId (the otval2))"

subsection \<open>findCounterexample\<close>

text \<open>
  The search recurses into the post-image of each definitely safe node that is not
  \<open>equal\<close> to a node of the path.  Nothing in the function bounds the recursion, so a
  call that does not return is the value \<open>None\<close>.
\<close>

partial_function (option) findCounterexample ::
  "('rt, 'n, 'tn, 'rs, 'b, 'p, 'd) rtree_api \<Rightarrow> 'rt \<Rightarrow> 'n list \<Rightarrow> 'n list \<Rightarrow> 'n list option" where
  "findCounterexample api rtree img path =
     (case img of
        [] \<Rightarrow> Some []
      | n # rest \<Rightarrow>
          if \<not> list_ex (rt_equal api rtree n) path then
            (let copyPath = path @ [n] in
             if \<not> definitely (rt_isSafe api rtree n) then Some copyPath
             else Option.bind (findCounterexample api rtree (rt_postimage api rtree n) copyPath)
                    (\<lambda>cex. if cex \<noteq> [] then Some cex
                           else findCounterexample api rtree rest path))
          else findCounterexample api rtree rest path)"

subsection \<open>isSpurious\<close>

text \<open>
  \<open>isSpurious\<close> dereferences \<open>beginCounter\<close> at once, so the model takes the first
  node of the counterexample and the nodes after it.  \<open>mapForward\<close> is the loop that
  maps the point along the remaining nodes.
\<close>

definition notCovers :: "('b, 'p, 'c, 'd) kernel \<Rightarrow> 'b \<Rightarrow> 'b \<Rightarrow> kleenean" where
  "notCovers k nodeEnc initialEnc = box_neq k (intersection k initialEnc nodeEnc) nodeEnc"

fun mapForward ::
  "('rt, 'n, 'tn, 'rs, 'b, 'p, 'd) rtree_api \<Rightarrow> ('b, 'p, 'c, 'd) kernel \<Rightarrow> 'rt \<Rightarrow> 'b \<Rightarrow> 'p \<Rightarrow>
   'n list \<Rightarrow> kleenean" where
  "mapForward api k rtree rtEnc currPoint [] = KFalse"
| "mapForward api k rtree rtEnc currPoint (nextCounter # others) =
     (let oNext = rt_nodeValue api rtree nextCounter;
          mappedPoint = evaluate k (rt_dynamics api rtree) currPoint;
          containsMapped =
            (case oNext of
               Some nextVal \<Rightarrow> box_contains k (mEnclosure nextVal) mappedPoint
             | None \<Rightarrow> knot (box_contains k rtEnc mappedPoint))
      in if definitely (knot containsMapped) then KTrue
         else mapForward api k rtree rtEnc mappedPoint others)"

definition isSpurious ::
  "('rt, 'n, 'tn, 'rs, 'b, 'p, 'd) rtree_api \<Rightarrow> ('b, 'p, 'c, 'd) kernel \<Rightarrow> 'rt \<Rightarrow> 'n \<Rightarrow> 'n list \<Rightarrow>
   'n list \<Rightarrow> effort \<Rightarrow> kleenean" where
  "isSpurious api k rtree beginCounter restCounter img effort =
     (case rt_nodeValue api rtree beginCounter of
        None \<Rightarrow>
          (if list_ex (\<lambda>n. possibly (rt_relatesBox api rtree n (rt_initialEnclosure api rtree)
                                        (notCovers k))) img
           then KFalse else KTrue)
      | Some beginCex \<Rightarrow>
          (let currPoint = centre k (mEnclosure beginCex)
           in if \<not> list_ex (\<lambda>n. possibly (rt_relatesPoint api rtree n currPoint (box_contains k))) img
              then KTrue
              else mapForward api k rtree (rt_rootEnclosure api rtree) currPoint restCounter))"

subsection \<open>cegar\<close>

text \<open>
  \<open>initialImage\<close> is a \<open>std::set\<close> ordered by \<open>NodeComparator\<close>: a list kept in
  the comparator's order in which no two elements are equivalent.  The comparator holds
  a reference to the refinement tree, so every comparison reads the tree as it is at
  that moment.
\<close>

fun set_insert :: "('n \<Rightarrow> 'n \<Rightarrow> bool) \<Rightarrow> 'n \<Rightarrow> 'n list \<Rightarrow> 'n list" where
  "set_insert cmp x [] = [x]"
| "set_insert cmp x (y # ys) =
     (if cmp x y then x # y # ys
      else if cmp y x then y # set_insert cmp x ys
      else y # ys)"

definition set_insert_range :: "('n \<Rightarrow> 'n \<Rightarrow> bool) \<Rightarrow> 'n list \<Rightarrow> 'n list \<Rightarrow> 'n list" where
  "set_insert_range cmp xs s = foldl (\<lambda>acc x. set_insert cmp x acc) s xs"

definition set_find :: "('n \<Rightarrow> 'n \<Rightarrow> bool) \<Rightarrow> 'n \<Rightarrow> 'n list \<Rightarrow> 'n option" where
  "set_find cmp x s = find (\<lambda>y. \<not> cmp y x \<and> \<not> cmp x y) s"

text \<open>The loop over the nodes that the locator picked.\<close>

fun refineTargets ::
  "('rt, 'n, 'tn, 'rs, 'b, 'p, 'd) rtree_api \<Rightarrow> 'rs \<Rightarrow> 'b \<Rightarrow> 'rt \<Rightarrow> 'n list \<Rightarrow> 'n list \<Rightarrow>
   error + 'rt \<times> 'n list" where
  "refineTargets api refinement initialSet rtree initialImage [] = Inr (rtree, initialImage)"
| "refineTargets api refinement initialSet rtree initialImage (refineNode # others) =
     (if rt_nodeValue api rtree refineNode \<noteq> None then
        (let treeNodeRef = rt_treeNode api rtree refineNode;
             iRefined = set_find (NodeComparator api rtree) refineNode initialImage
         in case rt_refine api rtree refineNode refinement of
              Inl e \<Rightarrow> Inl e
            | Inr rtree1 \<Rightarrow>
                (case iRefined of
                   None \<Rightarrow> refineTargets api refinement initialSet rtree1 initialImage others
                 | Some found \<Rightarrow>
                     (case rt_imageFrom api rtree1 initialSet treeNodeRef of
                        Inl e \<Rightarrow> Inl e
                      | Inr refinedInitials \<Rightarrow>
                          refineTargets api refinement initialSet rtree1
                            (set_insert_range (NodeComparator api rtree1) refinedInitials
                               (remove1 found initialImage))
                            others)))
      else refineTargets api refinement initialSet rtree initialImage others)"

text \<open>
  The \<open>while\<close> loop.  It ends when the tree has \<open>maxNodes\<close> nodes, when the search
  finds no counterexample or when it finds a certain one; nothing else bounds it, and
  the search itself may not return, so a run that does not return is \<open>None\<close>.  An
  exception of \<open>image\<close> or \<open>refine\<close> leaves \<open>cegar\<close> as \<open>Inl\<close>.
\<close>

partial_function (option) cegar_loop ::
  "('rt, 'n, 'tn, 'rs, 'b, 'p, 'd) rtree_api \<Rightarrow> ('b, 'p, 'c, 'd) kernel \<Rightarrow> 'b \<Rightarrow> effort \<Rightarrow> 'rs \<Rightarrow>
   ('n list \<Rightarrow> 'n list) \<Rightarrow> nat \<Rightarrow> 'rt \<Rightarrow> 'n list \<Rightarrow> (error + kleenean \<times> 'n list) option" where
  "cegar_loop api k initialSet effort refinement locator maxNodes rtree initialImage =
     (if rt_size api rtree < maxNodes then
        Option.bind (findCounterexample api rtree initialImage [])
          (\<lambda>counterexample.
             case counterexample of
               [] \<Rightarrow> Some (Inr (KTrue, []))
             | beginCounter # restCounter \<Rightarrow>
                 if definitely (knot (isSpurious api k rtree beginCounter restCounter
                                        initialImage effort)) \<and>
                    definitely (knot (rt_isSafe api rtree (last counterexample)))
                 then Some (Inr (KFalse, counterexample))
                 else
                   (case refineTargets api refinement initialSet rtree initialImage
                           (locator counterexample) of
                      Inl e \<Rightarrow> Some (Inl e)
                    | Inr (rtree1, initialImage1) \<Rightarrow>
                        cegar_loop api k initialSet effort refinement locator maxNodes
                          rtree1 initialImage1))
      else Some (Inr (KIndeterminate, [])))"

definition cegar ::
  "('rt, 'n, 'tn, 'rs, 'b, 'p, 'd) rtree_api \<Rightarrow> ('b, 'p, 'c, 'd) kernel \<Rightarrow> 'rt \<Rightarrow> 'b \<Rightarrow> effort \<Rightarrow> 'rs \<Rightarrow>
   ('n list \<Rightarrow> 'n list) \<Rightarrow> nat \<Rightarrow> (error + kleenean \<times> 'n list) option" where
  "cegar api k rtree initialSet effort refinement locator maxNodes =
     (case rt_image api rtree initialSet of
        Inl e \<Rightarrow> Some (Inl e)
      | Inr img \<Rightarrow>
          cegar_loop api k initialSet effort refinement locator maxNodes rtree
            (set_insert_range (NodeComparator api rtree) img []))"

declare findCounterexample.simps [code]

declare cegar_loop.simps [code]

section \<open>Paths and reachability in the leaf graph\<close>

text \<open>
  \<open>successive post q\<close>: each node of \<open>q\<close> is in the post-image of the node before it.
  \<open>loop_free eq q\<close>: no node of \<open>q\<close> compares equal to a node before it, with the
  later node as the first argument, as \<open>findCounterexample\<close> calls \<open>equal\<close>.
  \<open>reachable\<close> is the set of nodes that the edges of the graph reach from an image.
  \<open>graph_closed\<close> says of a list of nodes that it contains the post-images of its
  nodes and that \<open>equal\<close> is identity on it.
\<close>

fun successive :: "('n \<Rightarrow> 'n list) \<Rightarrow> 'n list \<Rightarrow> bool" where
  "successive post [] = True"
| "successive post [x] = True"
| "successive post (x # y # r) = (y \<in> set (post x) \<and> successive post (y # r))"

fun loop_free :: "('n \<Rightarrow> 'n \<Rightarrow> bool) \<Rightarrow> 'n list \<Rightarrow> bool" where
  "loop_free eq [] = True"
| "loop_free eq (x # xs) = ((\<forall>y\<in>set xs. \<not> eq y x) \<and> loop_free eq xs)"

definition cex_shape ::
  "('rt, 'n, 'tn, 'rs, 'b, 'p, 'd) rtree_api \<Rightarrow> 'rt \<Rightarrow> 'n list \<Rightarrow> 'n list \<Rightarrow> 'n list \<Rightarrow> bool" where
  "cex_shape api rtree img path res =
     (res = [] \<or>
      (\<exists>q. res = path @ q \<and> q \<noteq> [] \<and> hd q \<in> set img \<and>
           successive (rt_postimage api rtree) q \<and>
           \<not> definitely (rt_isSafe api rtree (last q)) \<and>
           (\<forall>m\<in>set (butlast q). definitely (rt_isSafe api rtree m)) \<and>
           (loop_free (rt_equal api rtree) path \<longrightarrow> loop_free (rt_equal api rtree) res)))"

inductive_set reachable ::
  "('rt, 'n, 'tn, 'rs, 'b, 'p, 'd) rtree_api \<Rightarrow> 'rt \<Rightarrow> 'n list \<Rightarrow> 'n set"
  for api :: "('rt, 'n, 'tn, 'rs, 'b, 'p, 'd) rtree_api" and rtree :: 'rt and img :: "'n list" where
  initial: "n \<in> set img \<Longrightarrow> n \<in> reachable api rtree img"
| step: "n \<in> reachable api rtree img \<Longrightarrow> m \<in> set (rt_postimage api rtree n) \<Longrightarrow>
         m \<in> reachable api rtree img"

definition graph_closed ::
  "('rt, 'n, 'tn, 'rs, 'b, 'p, 'd) rtree_api \<Rightarrow> 'rt \<Rightarrow> 'n list \<Rightarrow> bool" where
  "graph_closed api rtree V =
     ((\<forall>n\<in>set V. set (rt_postimage api rtree n) \<subseteq> set V) \<and>
      (\<forall>a\<in>set V. \<forall>b\<in>set V. rt_equal api rtree a b = (a = b)))"


section \<open>The spuriousness check in the words of the specification\<close>

text \<open>
  \<open>diverges n pt\<close>: the point is definitely not in the box of the node, or, for a node
  without a value (the outside sink), definitely in the root box.
  \<open>isSpurious_words\<close> follows the specification for a path whose first node has the
  box \<open>firstBox\<close>: with \<open>p\<close> the centre of that box, the answer is \<open>True\<close> when \<open>p\<close>
  possibly lies in no leaf of the initial image, \<open>True\<close> when for some \<open>i\<close> the point
  \<open>p\<close> mapped \<open>i + 1\<close> times by the dynamics diverges from the node \<open>i\<close> of the rest
  of the path, and \<open>False\<close> otherwise.
\<close>

definition diverges ::
  "('rt, 'n, 'tn, 'rs, 'b, 'p, 'd) rtree_api \<Rightarrow> ('b, 'p, 'c, 'd) kernel \<Rightarrow> 'rt \<Rightarrow> 'n \<Rightarrow> 'p \<Rightarrow> bool" where
  "diverges api k rtree n pt =
     (case rt_nodeValue api rtree n of
        Some nodeVal \<Rightarrow> definitely (knot (box_contains k (mEnclosure nodeVal) pt))
      | None \<Rightarrow> definitely (box_contains k (rt_rootEnclosure api rtree) pt))"

definition isSpurious_words ::
  "('rt, 'n, 'tn, 'rs, 'b, 'p, 'd) rtree_api \<Rightarrow> ('b, 'p, 'c, 'd) kernel \<Rightarrow> 'rt \<Rightarrow> 'b \<Rightarrow> 'n list \<Rightarrow>
   'n list \<Rightarrow> kleenean" where
  "isSpurious_words api k rtree firstBox restCounter img =
     (let p = centre k firstBox in
      if \<not> list_ex (\<lambda>n. possibly (rt_relatesPoint api rtree n p (box_contains k))) img
      then KTrue
      else if list_ex (\<lambda>i. diverges api k rtree (restCounter ! i)
                              ((evaluate k (rt_dynamics api rtree) ^^ Suc i) p))
                [0..<length restCounter]
      then KTrue
      else KFalse)"

section \<open>The runs of the driver\<close>

text \<open>
  \<open>cegar_certain\<close> is the test of the second \<open>if\<close> of the loop: the counterexample
  is definitely not spurious and its last node is definitely not safe.
  \<open>cegar_stops\<close> says that the loop, at a tree and an initial image, returns \<open>res\<close>
  in this iteration: \<open>(Indeterminate, [])\<close> when the tree has \<open>maxNodes\<close> nodes or
  more; otherwise \<open>(True, [])\<close> when the search returns the empty path and
  \<open>(False, counterexample)\<close> when it returns a counterexample that is certain.
  \<open>cegar_reaches\<close> relates a tree and an image to those that the loop holds some
  iterations later: each iteration starts below \<open>maxNodes\<close>, finds a counterexample
  that is not certain and refines the nodes that the locator picks.
\<close>

definition cegar_certain ::
  "('rt, 'n, 'tn, 'rs, 'b, 'p, 'd) rtree_api \<Rightarrow> ('b, 'p, 'c, 'd) kernel \<Rightarrow> effort \<Rightarrow> 'rt \<Rightarrow> 'n list \<Rightarrow>
   'n list \<Rightarrow> bool" where
  "cegar_certain api k effort rtree initialImage counterexample =
     (case counterexample of
        [] \<Rightarrow> False
      | beginCounter # restCounter \<Rightarrow>
          definitely (knot (isSpurious api k rtree beginCounter restCounter initialImage effort)) \<and>
          definitely (knot (rt_isSafe api rtree (last counterexample))))"

definition cegar_stops ::
  "('rt, 'n, 'tn, 'rs, 'b, 'p, 'd) rtree_api \<Rightarrow> ('b, 'p, 'c, 'd) kernel \<Rightarrow> effort \<Rightarrow> nat \<Rightarrow> 'rt \<Rightarrow>
   'n list \<Rightarrow> kleenean \<times> 'n list \<Rightarrow> bool" where
  "cegar_stops api k effort maxNodes rtree initialImage res =
     (if rt_size api rtree < maxNodes then
        (case findCounterexample api rtree initialImage [] of
           None \<Rightarrow> False
         | Some counterexample \<Rightarrow>
             if counterexample = [] then res = (KTrue, [])
             else cegar_certain api k effort rtree initialImage counterexample \<and>
                  res = (KFalse, counterexample))
      else res = (KIndeterminate, []))"

inductive cegar_reaches ::
  "('rt, 'n, 'tn, 'rs, 'b, 'p, 'd) rtree_api \<Rightarrow> ('b, 'p, 'c, 'd) kernel \<Rightarrow> 'b \<Rightarrow> effort \<Rightarrow> 'rs \<Rightarrow>
   ('n list \<Rightarrow> 'n list) \<Rightarrow> nat \<Rightarrow> 'rt \<Rightarrow> 'n list \<Rightarrow> 'rt \<Rightarrow> 'n list \<Rightarrow> bool"
  for api :: "('rt, 'n, 'tn, 'rs, 'b, 'p, 'd) rtree_api" and k :: "('b, 'p, 'c, 'd) kernel"
    and initialSet :: 'b and effort :: effort and refinement :: 'rs
    and locator :: "'n list \<Rightarrow> 'n list" and maxNodes :: nat where
  here: "cegar_reaches api k initialSet effort refinement locator maxNodes rtree img rtree img"
| iteration:
    "rt_size api rtree < maxNodes \<Longrightarrow>
     findCounterexample api rtree img [] = Some counterexample \<Longrightarrow>
     counterexample \<noteq> [] \<Longrightarrow>
     \<not> cegar_certain api k effort rtree img counterexample \<Longrightarrow>
     refineTargets api refinement initialSet rtree img (locator counterexample) = Inr (rtree1, img1) \<Longrightarrow>
     cegar_reaches api k initialSet effort refinement locator maxNodes rtree1 img1 rtree2 img2 \<Longrightarrow>
     cegar_reaches api k initialSet effort refinement locator maxNodes rtree img rtree2 img2"

section \<open>An exact kernel and the tree of refinementTree.hpp as an instance\<close>

text \<open>
  The examples run the code on closed integer intervals with exact verdicts.  The
  dynamics \<open>(a, c)\<close> is the map \<open>x \<mapsto> a * x + c\<close> with \<open>a \<ge> 0\<close>, the strategy is
  bisection.

  \<open>treeApi\<close> is the refinement tree of refinementTree.hpp behind the interface of
  cegar.hpp.  That tree has no outside sink, so every valid node has a value.
  Modelled from the spec: \<open>equal\<close>, \<open>isSafe\<close>, \<open>relates\<close> and \<open>id\<close> are not in
  refinementTree.hpp; \<open>equal\<close> is \<open>definitely( nodesEqual )\<close>, \<open>isSafe\<close> the stored
  flag, \<open>relates\<close> applies the predicate to the node's box, and the stable identifier
  of a node is its vertex handle.
\<close>

type_synonym ibox = "int \<times> int"

definition exampleKernel :: "(ibox, int, ibox, int \<times> int) kernel" where
  "exampleKernel =
     \<lparr>overlaps_check = (\<lambda>c b eff. if max (fst c) (fst b) \<le> min (snd c) (snd b) then KTrue else KFalse),
      box_eq_check = (\<lambda>a b eff. if a = b then KTrue else KFalse),
      box_neq = (\<lambda>a b. if a = b then KFalse else KTrue),
      intersection = (\<lambda>a b. (max (fst a) (fst b), min (snd a) (snd b))),
      is_empty = (\<lambda>b. if snd b < fst b then KTrue else KFalse),
      box_image = (\<lambda>b f. (fst f * fst b + snd f, fst f * snd b + snd f)),
      box_contains = (\<lambda>b p. if fst b \<le> p \<and> p \<le> snd b then KTrue else KFalse),
      centre = (\<lambda>b. (fst b + snd b) div 2),
      evaluate = (\<lambda>f p. fst f * p + snd f),
      zero_box = (0, 0)\<rparr>"

definition bisect :: "ibox \<Rightarrow> ibox list" where
  "bisect b = [(fst b, (fst b + snd b) div 2), ((fst b + snd b) div 2, snd b)]"

definition treeApi ::
  "('b, 'p, 'c, 'd) kernel \<Rightarrow>
   (('b, 'c, 'd) RefinementTree, vertex, tnode, 'b \<Rightarrow> 'b list, 'b, 'p, 'd) rtree_api" where
  "treeApi k =
     \<lparr>rt_nodeValue = (\<lambda>rt n. case nodeValue rt n of
                                Inl e \<Rightarrow> None
                              | Inr tv \<Rightarrow> Some \<lparr>mEnclosure = mEnclosure tv, mSafe = mSafe tv, mId = n\<rparr>),
      rt_equal = (\<lambda>rt n1 n2. case nodesEqual k rt n1 n2 of Inl e \<Rightarrow> False | Inr r \<Rightarrow> definitely r),
      rt_isSafe = (\<lambda>rt n. case nodeValue rt n of Inl e \<Rightarrow> KFalse | Inr tv \<Rightarrow> mSafe tv),
      rt_postimage = postimage,
      rt_relatesBox = (\<lambda>rt n x pred. case nodeValue rt n of Inl e \<Rightarrow> KFalse | Inr tv \<Rightarrow> pred (mEnclosure tv) x),
      rt_relatesPoint = (\<lambda>rt n x pred. case nodeValue rt n of Inl e \<Rightarrow> KFalse | Inr tv \<Rightarrow> pred (mEnclosure tv) x),
      rt_initialEnclosure = (\<lambda>rt. case mRefinements rt of TreeNode tv cs \<Rightarrow> mEnclosure tv),
      rt_rootEnclosure = (\<lambda>rt. case mRefinements rt of TreeNode tv cs \<Rightarrow> mEnclosure tv),
      rt_dynamics = mDynamics,
      rt_size = (\<lambda>rt. tree_size (mRefinements rt)),
      rt_treeNode = (\<lambda>rt n. case graph_value (mMappings rt) n of None \<Rightarrow> [] | Some treev \<Rightarrow> treev),
      rt_image = image_rt k,
      rt_imageFrom = imageRecursive k,
      rt_refine = (\<lambda>rt n r. case refine k rt n r of Inl (e, left) \<Rightarrow> Inl e | Inr rt1 \<Rightarrow> Inr rt1)\<rparr>"

text \<open>
  \<open>exampleRoot\<close> is the tree that the constructor builds for the box \<open>[0, 4]\<close>, the
  constraint \<open>[0, 1]\<close> and the identity as dynamics; \<open>exampleRefined\<close> is that tree
  after \<open>refine\<close> has bisected the root, and \<open>exampleRefinedTwice\<close> after it has
  also bisected the left half.
\<close>

definition exampleRoot :: "(ibox, ibox, int \<times> int) RefinementTree" where
  "exampleRoot =
     \<lparr>mConstraints = (0, 1), mDynamics = (1, 0), mEffort = 1,
      mRefinements = TreeNode \<lparr>mEnclosure = (0, 4), mSafe = KTrue\<rparr> [],
      mMappings = \<lparr>gverts = [(0, [])], gedges = [(0, 0)], gnext = 1\<rparr>\<rparr>"

definition exampleRefined :: "(ibox, ibox, int \<times> int) RefinementTree" where
  "exampleRefined =
     \<lparr>mConstraints = (0, 1), mDynamics = (1, 0), mEffort = 1,
      mRefinements =
        TreeNode \<lparr>mEnclosure = (0, 4), mSafe = KTrue\<rparr>
          [TreeNode \<lparr>mEnclosure = (0, 2), mSafe = KTrue\<rparr> [],
           TreeNode \<lparr>mEnclosure = (2, 4), mSafe = KFalse\<rparr> []],
      mMappings = \<lparr>gverts = [(1, [0]), (2, [1])], gedges = [(1, 1), (2, 1), (1, 2), (2, 2)],
                    gnext = 3\<rparr>\<rparr>"

definition exampleRefinedTwice :: "(ibox, ibox, int \<times> int) RefinementTree" where
  "exampleRefinedTwice =
     \<lparr>mConstraints = (0, 1), mDynamics = (1, 0), mEffort = 1,
      mRefinements =
        TreeNode \<lparr>mEnclosure = (0, 4), mSafe = KTrue\<rparr>
          [TreeNode \<lparr>mEnclosure = (0, 2), mSafe = KTrue\<rparr>
             [TreeNode \<lparr>mEnclosure = (0, 1), mSafe = KTrue\<rparr> [],
              TreeNode \<lparr>mEnclosure = (1, 2), mSafe = KTrue\<rparr> []],
           TreeNode \<lparr>mEnclosure = (2, 4), mSafe = KFalse\<rparr> []],
      mMappings = \<lparr>gverts = [(2, [1]), (3, [0, 0]), (4, [0, 1])],
                    gedges = [(2, 2), (3, 3), (4, 3), (3, 4), (4, 4), (2, 4), (4, 2)],
                    gnext = 5\<rparr>\<rparr>"



text \<open>
  \<open>refineAll\<close> refines one vertex after the other with the same strategy.
  \<open>exampleUneven\<close> is the tree after \<open>refine\<close> has applied the strategy \<open>uneven\<close> to
  the root of \<open>exampleRoot\<close>, to its second child \<open>[1, 4]\<close>, to the second child
  \<open>[2, 4]\<close> of that one, for which \<open>uneven\<close> returns no box, and to the first child
  \<open>[0, 3]\<close>.
\<close>

fun refineAll ::
  "('b, 'p, 'c, 'd) kernel \<Rightarrow> ('b, 'c, 'd) RefinementTree \<Rightarrow> vertex list \<Rightarrow> ('b \<Rightarrow> 'b list) \<Rightarrow>
   error \<times> ('b, 'c, 'd) RefinementTree + ('b, 'c, 'd) RefinementTree" where
  "refineAll k rt [] r = Inr rt"
| "refineAll k rt (v # vs) r =
     (case refine k rt v r of Inl e \<Rightarrow> Inl e | Inr rt1 \<Rightarrow> refineAll k rt1 vs r)"

definition uneven :: "ibox \<Rightarrow> ibox list" where
  "uneven b =
     (if b = (0, 4) then [(0, 1), (1, 4)]
      else if b = (1, 4) then [(0, 3), (2, 4)]
      else if b = (0, 3) then [(0, 0), (3, 3)]
      else [])"

definition exampleUneven :: "(ibox, ibox, int \<times> int) RefinementTree" where
  "exampleUneven =
     \<lparr>mConstraints = (0, 1), mDynamics = (1, 0), mEffort = 1,
      mRefinements =
        TreeNode \<lparr>mEnclosure = (0, 4), mSafe = KTrue\<rparr>
          [TreeNode \<lparr>mEnclosure = (0, 1), mSafe = KTrue\<rparr> [],
           TreeNode \<lparr>mEnclosure = (1, 4), mSafe = KTrue\<rparr>
             [TreeNode \<lparr>mEnclosure = (0, 3), mSafe = KTrue\<rparr>
                [TreeNode \<lparr>mEnclosure = (0, 0), mSafe = KTrue\<rparr> [],
                 TreeNode \<lparr>mEnclosure = (3, 3), mSafe = KFalse\<rparr> []],
              TreeNode \<lparr>mEnclosure = (2, 4), mSafe = KFalse\<rparr>
                [TreeNode \<lparr>mEnclosure = (0, 0), mSafe = KFalse\<rparr> [],
                 TreeNode \<lparr>mEnclosure = (0, 0), mSafe = KFalse\<rparr> []]]],
      mMappings =
        \<lparr>gverts = [(1, [0]), (5, [1, 1, 0]), (6, [1, 1, 1]), (7, [1, 0, 0]), (8, [1, 0, 1])],
         gedges = [(1, 1), (5, 5), (6, 5), (5, 6), (6, 6), (1, 7), (7, 7), (5, 7), (6, 7),
                   (7, 1), (7, 5), (7, 6), (8, 8)],
         gnext = 9\<rparr>\<rparr>"

text \<open>
  \<open>exampleWideRoot\<close> is the tree that the constructor builds for the box \<open>[0, 4]\<close>, the
  constraint \<open>[0, 4]\<close> and the identity, and \<open>exampleWide\<close> that tree after bisection of
  the root.  \<open>exampleEscaping\<close> is the tree that the constructor builds for the box
  \<open>[0, 4]\<close>, the constraint \<open>[0, 1]\<close> and the dynamics \<open>x \<mapsto> x + 10\<close>.
\<close>

definition exampleWideRoot :: "(ibox, ibox, int \<times> int) RefinementTree" where
  "exampleWideRoot =
     \<lparr>mConstraints = (0, 4), mDynamics = (1, 0), mEffort = 1,
      mRefinements = TreeNode \<lparr>mEnclosure = (0, 4), mSafe = KTrue\<rparr> [],
      mMappings = \<lparr>gverts = [(0, [])], gedges = [(0, 0)], gnext = 1\<rparr>\<rparr>"

definition exampleWide :: "(ibox, ibox, int \<times> int) RefinementTree" where
  "exampleWide =
     \<lparr>mConstraints = (0, 4), mDynamics = (1, 0), mEffort = 1,
      mRefinements =
        TreeNode \<lparr>mEnclosure = (0, 4), mSafe = KTrue\<rparr>
          [TreeNode \<lparr>mEnclosure = (0, 2), mSafe = KTrue\<rparr> [],
           TreeNode \<lparr>mEnclosure = (2, 4), mSafe = KTrue\<rparr> []],
      mMappings = \<lparr>gverts = [(1, [0]), (2, [1])], gedges = [(1, 1), (2, 1), (1, 2), (2, 2)],
                    gnext = 3\<rparr>\<rparr>"


section \<open>The examples are what the code builds\<close>

lemma exampleRoot_built:
  "newRefinementTree exampleKernel (0, 4) (0, 1) (1, 0) 1 = Inr exampleRoot"
  by code_simp

lemma exampleRefined_built: "refine exampleKernel exampleRoot 0 bisect = Inr exampleRefined"
  by code_simp

lemma exampleRefinedTwice_built:
  "refine exampleKernel exampleRefined 1 bisect = Inr exampleRefinedTwice"
  by code_simp


lemma exampleUneven_built:
  "refineAll exampleKernel exampleRoot [0, 2, 4, 3] uneven = Inr exampleUneven"
  by code_simp

lemma exampleWideRoot_built:
  "newRefinementTree exampleKernel (0, 4) (0, 4) (1, 0) 1 = Inr exampleWideRoot"
  by code_simp

lemma exampleWide_built: "refine exampleKernel exampleWideRoot 0 bisect = Inr exampleWide"
  by code_simp


section \<open>Properties of findCounterexample\<close>



lemma successive_Cons:
  "successive post (x # q) = (successive post q \<and> (q \<noteq> [] \<longrightarrow> hd q \<in> set (post x)))"
  by (cases q) auto

lemma successive_nth:
  "successive post q = (\<forall>i. Suc i < length q \<longrightarrow> q ! Suc i \<in> set (post (q ! i)))"
proof (induction post q rule: successive.induct)
  case (3 post x y r)
  show ?case
  proof
    assume a: "successive post (x # y # r)"
    show "\<forall>i. Suc i < length (x # y # r) \<longrightarrow> (x # y # r) ! Suc i \<in> set (post ((x # y # r) ! i))"
    proof (intro allI impI)
      fix i assume "Suc i < length (x # y # r)"
      then show "(x # y # r) ! Suc i \<in> set (post ((x # y # r) ! i))"
        using a 3 by (cases i) auto
    qed
  next
    assume a: "\<forall>i. Suc i < length (x # y # r) \<longrightarrow> (x # y # r) ! Suc i \<in> set (post ((x # y # r) ! i))"
    have "y \<in> set (post x)" using a[rule_format, of 0] by simp
    moreover have "\<forall>i. Suc i < length (y # r) \<longrightarrow> (y # r) ! Suc i \<in> set (post ((y # r) ! i))"
      using a[rule_format, of "Suc _"] by simp
    ultimately show "successive post (x # y # r)" using 3 by simp
  qed
qed simp_all

lemma loop_free_snoc:
  "loop_free eq (p @ [n]) = (loop_free eq p \<and> (\<forall>m\<in>set p. \<not> eq n m))"
  by (induction p) auto

lemma loop_free_nth:
  "loop_free eq p = (\<forall>j<length p. \<forall>i<j. \<not> eq (p ! j) (p ! i))"
proof (induction p rule: rev_induct)
  case Nil
  then show ?case by simp
next
  case (snoc n p)
  have "(\<forall>j<length (p @ [n]). \<forall>i<j. \<not> eq ((p @ [n]) ! j) ((p @ [n]) ! i)) =
        ((\<forall>j<length p. \<forall>i<j. \<not> eq (p ! j) (p ! i)) \<and> (\<forall>i<length p. \<not> eq n (p ! i)))"
    by (auto simp: nth_append less_Suc_eq)
  also have "(\<forall>i<length p. \<not> eq n (p ! i)) = (\<forall>m\<in>set p. \<not> eq n m)"
    by (metis in_set_conv_nth)
  finally show ?case using snoc by (simp add: loop_free_snoc)
qed

lemma findCounterexample_shape:
  "findCounterexample api rtree img path = Some res \<Longrightarrow> cex_shape api rtree img path res"
proof (induction api rtree img path res rule: findCounterexample.raw_induct[rotated 1, consumes 1])
  case (1 fc api rtree img path res)
  show ?case
  proof (cases img)
    case Nil
    with 1(2) show ?thesis by (simp add: cex_shape_def)
  next
    case (Cons n rest) 
    show ?thesis
    proof (cases "list_ex (rt_equal api rtree n) path")
      case True
      with 1(2) Cons have "fc api rtree rest path = Some res" by simp
      from 1(1)[OF this] show ?thesis unfolding cex_shape_def Cons by auto
    next
      case noloop: False
      show ?thesis
      proof (cases "definitely (rt_isSafe api rtree n)")
        case False
        with 1(2) Cons noloop have "res = path @ [n]" by (simp add: Let_def)
        then show ?thesis using False noloop Cons
          by (auto simp: cex_shape_def list_ex_iff loop_free_snoc)
      next
        case True
        with 1(2) Cons noloop obtain cex where
          c: "fc api rtree (rt_postimage api rtree n) (path @ [n]) = Some cex"
          and r: "(if cex \<noteq> [] then Some cex else fc api rtree rest path) = Some res"
          by (auto simp: Let_def split: Option.bind_splits)
        show ?thesis
        proof (cases "cex = []")
          case True
          with r have "fc api rtree rest path = Some res" by simp
          from 1(1)[OF this] show ?thesis unfolding cex_shape_def Cons by auto
        next
          case False
          with r have [simp]: "res = cex" by simp
          from 1(1)[OF c] False obtain q where
            q: "cex = (path @ [n]) @ q" "q \<noteq> []" "hd q \<in> set (rt_postimage api rtree n)"
               "successive (rt_postimage api rtree) q"
               "\<not> definitely (rt_isSafe api rtree (last q))"
               "\<forall>m\<in>set (butlast q). definitely (rt_isSafe api rtree m)"
               "loop_free (rt_equal api rtree) (path @ [n]) \<longrightarrow> loop_free (rt_equal api rtree) cex"
            unfolding cex_shape_def by blast
          have "res = path @ (n # q)" using q(1) by simp
          moreover have "successive (rt_postimage api rtree) (n # q)"
            using q by (simp add: successive_Cons)
          moreover have "\<forall>m\<in>set (butlast (n # q)). definitely (rt_isSafe api rtree m)"
            using q True by auto
          moreover have "loop_free (rt_equal api rtree) path \<longrightarrow> loop_free (rt_equal api rtree) res"
            using q(7) noloop by (auto simp: list_ex_iff loop_free_snoc)
          ultimately show ?thesis unfolding cex_shape_def Cons using q(2,5)
            by (intro disjI2 exI[of _ "n # q"]) auto
        qed
      qed
    qed
  qed
qed








text \<open>
  Claim C2.  Every non-empty path that \<open>findCounterexample\<close> returns for an image
  starts at a node of that image; each further node is in the post-image of the node
  before it; the last node is not definitely safe; and no node of the path compares
  equal to a node before it (\<open>equal\<close> is called with the later node first), hence,
  where \<open>equal\<close> is symmetric, no two nodes of the path compare equal in either order.
\<close>

theorem findCounterexample_path_valid:
  assumes "findCounterexample api rtree img [] = Some p" and "p \<noteq> []"
  shows "hd p \<in> set img \<and>
         (\<forall>i. Suc i < length p \<longrightarrow> p ! Suc i \<in> set (rt_postimage api rtree (p ! i))) \<and>
         \<not> definitely (rt_isSafe api rtree (last p)) \<and>
         (\<forall>j<length p. \<forall>i<j. \<not> rt_equal api rtree (p ! j) (p ! i)) \<and>
         ((\<forall>a b. rt_equal api rtree a b = rt_equal api rtree b a) \<longrightarrow>
          (\<forall>i<length p. \<forall>j<length p. i \<noteq> j \<longrightarrow> \<not> rt_equal api rtree (p ! i) (p ! j)))"
proof -
  from findCounterexample_shape[OF assms(1)] assms(2)
  have main: "hd p \<in> set img \<and>
         (\<forall>i. Suc i < length p \<longrightarrow> p ! Suc i \<in> set (rt_postimage api rtree (p ! i))) \<and>
         \<not> definitely (rt_isSafe api rtree (last p)) \<and>
         (\<forall>j<length p. \<forall>i<j. \<not> rt_equal api rtree (p ! j) (p ! i))"
    by (auto simp: cex_shape_def successive_nth[symmetric] loop_free_nth[symmetric])
  have "\<not> rt_equal api rtree (p ! i) (p ! j)"
    if sym: "\<forall>a b. rt_equal api rtree a b = rt_equal api rtree b a"
      and ij: "i < length p" "j < length p" "i \<noteq> j" for i j
  proof (cases "i < j")
    case True
    with main ij have "\<not> rt_equal api rtree (p ! j) (p ! i)" by blast
    with sym show ?thesis by blast
  next
    case False
    with ij have "j < i" by simp
    with main ij show ?thesis by blast
  qed
  with main show ?thesis by blast
qed

theorem findCounterexample_path_valid_witness:
  "findCounterexample (treeApi exampleKernel) exampleRefined [1] [] = Some [1, 2] \<and>
   (2::nat) \<in> set (rt_postimage (treeApi exampleKernel) exampleRefined 1) \<and>
   \<not> definitely (rt_isSafe (treeApi exampleKernel) exampleRefined 2) \<and>
   \<not> rt_equal (treeApi exampleKernel) exampleRefined 2 1"
proof -
  have run: "findCounterexample (treeApi exampleKernel) exampleRefined [1] [] = Some [1, 2]"
    by code_simp
  have ne: "[1, 2::nat] \<noteq> []" by simp
  note v = findCounterexample_path_valid[OF run ne]
  from v have step: "\<And>i. Suc i < length [1, 2::nat] \<Longrightarrow>
      [1, 2] ! Suc i \<in> set (rt_postimage (treeApi exampleKernel) exampleRefined ([1, 2] ! i))"
    by blast
  from v have neq: "\<And>i j. j < length [1, 2::nat] \<Longrightarrow> i < j \<Longrightarrow>
      \<not> rt_equal (treeApi exampleKernel) exampleRefined ([1, 2] ! j) ([1, 2] ! i)"
    by blast
  have "2 \<in> set (rt_postimage (treeApi exampleKernel) exampleRefined 1)"
    using step[of 0] by simp
  moreover have "\<not> rt_equal (treeApi exampleKernel) exampleRefined 2 1"
    using neq[of 1 0] by simp
  ultimately show ?thesis using run v by simp
qed


text \<open>
  The same happens when the search starts from the image of an initial set.  In
  \<open>exampleUneven\<close> the image of \<open>[1, 1]\<close> is the leaf \<open>1\<close> with the box \<open>[0, 1]\<close>; it
  reaches the leaf \<open>7\<close>, the box \<open>[0, 0]\<close> flagged safe, and that one the leaf \<open>5\<close>,
  the default box \<open>[0, 0]\<close> flagged not safe, which the search skips as equal to
  leaf \<open>7\<close>.
\<close>

lemma findCounterexample_empty_unsafe_reachable_image:
  "image_rt exampleKernel exampleUneven (1, 1) = Inr [1] \<and>
   findCounterexample (treeApi exampleKernel) exampleUneven [1] [] = Some [] \<and>
   5 \<in> reachable (treeApi exampleKernel) exampleUneven [1] \<and>
   rt_isSafe (treeApi exampleKernel) exampleUneven 5 = KFalse"
proof -
  let ?A = "treeApi exampleKernel"
  have img: "image_rt exampleKernel exampleUneven (1, 1) = Inr [1]" by code_simp
  have run: "findCounterexample ?A exampleUneven [1] [] = Some []" by code_simp
  have post1: "rt_postimage ?A exampleUneven 1 = [1, 7]" by code_simp
  have post7: "rt_postimage ?A exampleUneven 7 = [7, 1, 5, 6]" by code_simp
  have "1 \<in> reachable ?A exampleUneven [1]" by (rule reachable.initial) simp
  then have "7 \<in> reachable ?A exampleUneven [1]"
    by (rule reachable.step) (simp add: post1 del: One_nat_def)
  then have r: "5 \<in> reachable ?A exampleUneven [1]"
    by (rule reachable.step) (simp add: post7 del: One_nat_def)
  have flag: "rt_isSafe ?A exampleUneven 5 = KFalse" by code_simp
  from img run r flag show ?thesis by simp
qed



section \<open>Properties of isSpurious\<close>

lemma knot_knot: "knot (knot x) = x"
  by (cases x) simp_all

lemma mapForward_diverges:
  "mapForward api k rtree (rt_rootEnclosure api rtree) pt rest =
     (if \<exists>i<length rest. diverges api k rtree (rest ! i)
                            ((evaluate k (rt_dynamics api rtree) ^^ Suc i) pt)
      then KTrue else KFalse)"
proof (induction rest arbitrary: pt)
  case Nil
  show ?case by simp
next
  case (Cons n rest)
  let ?f = "evaluate k (rt_dynamics api rtree)"
  have here: "definitely (knot (case rt_nodeValue api rtree n of
                 Some nextVal \<Rightarrow> box_contains k (mEnclosure nextVal) (?f pt)
               | None \<Rightarrow> knot (box_contains k (rt_rootEnclosure api rtree) (?f pt))))
        = diverges api k rtree n (?f pt)"
    by (simp add: diverges_def knot_knot split: option.splits)
  have later: "(\<exists>i<length (n # rest). diverges api k rtree ((n # rest) ! i) ((?f ^^ Suc i) pt)) =
        (diverges api k rtree n (?f pt) \<or>
         (\<exists>i<length rest. diverges api k rtree (rest ! i) ((?f ^^ Suc i) (?f pt))))"
    (is "?L = (?A \<or> ?B)")
  proof
    assume ?L
    then obtain i where i: "i < length (n # rest)"
      "diverges api k rtree ((n # rest) ! i) ((?f ^^ Suc i) pt)" by blast
    show "?A \<or> ?B"
    proof (cases i)
      case 0
      with i show ?thesis by simp
    next
      case (Suc j)
      with i have "j < length rest" "diverges api k rtree (rest ! j) ((?f ^^ Suc j) (?f pt))"
        by (simp_all add: funpow_swap1)
      then show ?thesis by blast
    qed
  next
    assume "?A \<or> ?B"
    then show ?L
    proof
      assume ?A
      then have "diverges api k rtree ((n # rest) ! 0) ((?f ^^ Suc 0) pt)" by simp
      then show ?L by blast
    next
      assume ?B
      then obtain j where "j < length rest"
        "diverges api k rtree (rest ! j) ((?f ^^ Suc j) (?f pt))" by blast
      then have "Suc j < length (n # rest)"
        "diverges api k rtree ((n # rest) ! Suc j) ((?f ^^ Suc (Suc j)) pt)"
        by (simp_all add: funpow_swap1)
      then show ?L by blast
    qed
  qed
  show ?case
    unfolding later using here Cons.IH[of "?f pt"] by (simp add: Let_def)
qed

text \<open>
  Claim C3.  For a counterexample whose first node has a value, \<open>isSpurious\<close> takes
  the centre of the first node's box; it returns \<open>True\<close> when that centre lies in no
  leaf of the initial image; otherwise it maps the point forward along the path and
  returns \<open>True\<close> when a mapped point is definitely not in the next node's box (for
  a node without a value: definitely in the root box), and \<open>False\<close> when the walk
  reaches the end of the path.
\<close>

theorem isSpurious_concrete_first:
  assumes "rt_nodeValue api rtree beginCounter = Some beginCex"
  shows "isSpurious api k rtree beginCounter restCounter img effort =
         isSpurious_words api k rtree (mEnclosure beginCex) restCounter img"
proof -
  have "list_ex (\<lambda>i. diverges api k rtree (restCounter ! i)
                        ((evaluate k (rt_dynamics api rtree) ^^ Suc i) p))
          [0..<length restCounter] =
        (\<exists>i<length restCounter. diverges api k rtree (restCounter ! i)
                        ((evaluate k (rt_dynamics api rtree) ^^ Suc i) p))" for p
    by (auto simp: list_ex_iff)
  then show ?thesis
    using assms by (simp add: isSpurious_def isSpurious_words_def Let_def mapForward_diverges)
qed

theorem isSpurious_concrete_first_witness:
  "rt_nodeValue (treeApi exampleKernel) exampleRefined 1 =
     Some \<lparr>mEnclosure = (0, 2), mSafe = KTrue, mId = 1\<rparr> \<and>
   isSpurious (treeApi exampleKernel) exampleKernel exampleRefined 1 [2] [1] 1 = KTrue \<and>
   isSpurious_words (treeApi exampleKernel) exampleKernel exampleRefined (0, 2) [2] [1] = KTrue"
proof -
  have v: "rt_nodeValue (treeApi exampleKernel) exampleRefined 1 =
     Some \<lparr>mEnclosure = (0, 2), mSafe = KTrue, mId = 1\<rparr>"
    by code_simp
  have w: "isSpurious_words (treeApi exampleKernel) exampleKernel exampleRefined (0, 2) [2] [1] = KTrue"
    by code_simp
  from isSpurious_concrete_first[OF v, of exampleKernel "[2]" "[1]" 1] w v
  show ?thesis by simp
qed

section \<open>Properties of NodeComparator\<close>

text \<open>
  Claim C7.  The verdicts of \<open>NodeComparator\<close>: two nodes with a value compare by
  their identifiers.  A node without a value (the outside sink) precedes every node
  without a value, itself included, and neither precedes nor follows a node with a
  value.  The claim asks for a sink that does not precede itself and that precedes, or
  follows, every concrete node.
\<close>

theorem NodeComparator_verdicts:
  "NodeComparator api mRtree n1 n2 =
     (case rt_nodeValue api mRtree n1 of
        None \<Rightarrow> rt_nodeValue api mRtree n2 = None
      | Some tval1 \<Rightarrow>
          (case rt_nodeValue api mRtree n2 of
             None \<Rightarrow> False
           | Some tval2 \<Rightarrow> mId tval1 < mId tval2))"
  by (simp add: NodeComparator_def Let_def split: option.splits)

section \<open>Properties of cegar\<close>

lemma cegar_loop_stops:
  "cegar_stops api k effort maxNodes rtree img res \<Longrightarrow>
   cegar_loop api k initialSet effort refinement locator maxNodes rtree img = Some (Inr res)"
  by (subst cegar_loop.simps)
     (auto simp: cegar_stops_def cegar_certain_def split: if_splits option.splits list.splits)

lemma cegar_loop_iterates:
  assumes "rt_size api rtree < maxNodes"
    and "findCounterexample api rtree img [] = Some counterexample"
    and "counterexample \<noteq> []"
    and "\<not> cegar_certain api k effort rtree img counterexample"
  shows "cegar_loop api k initialSet effort refinement locator maxNodes rtree img =
         (case refineTargets api refinement initialSet rtree img (locator counterexample) of
            Inl e \<Rightarrow> Some (Inl e)
          | Inr (rtree1, img1) \<Rightarrow>
              cegar_loop api k initialSet effort refinement locator maxNodes rtree1 img1)"
  using assms
  by (subst cegar_loop.simps) (auto simp: cegar_certain_def split: list.splits)

lemma cegar_reaches_returns:
  "cegar_reaches api k initialSet effort refinement locator maxNodes rtree img rtree2 img2 \<Longrightarrow>
   cegar_stops api k effort maxNodes rtree2 img2 res \<Longrightarrow>
   cegar_loop api k initialSet effort refinement locator maxNodes rtree img = Some (Inr res)"
proof (induction rule: cegar_reaches.induct)
  case (here rtree img)
  then show ?case by (rule cegar_loop_stops)
next
  case (iteration rtree img counterexample rtree1 img1 rtree2 img2)
  from iteration.IH[OF iteration.prems] iteration.hyps(5)
  show ?case
    by (simp add: cegar_loop_iterates[OF iteration.hyps(1-4)])
qed

lemma cegar_loop_returned:
  "cegar_loop api k initialSet effort refinement locator maxNodes rtree img = Some r \<Longrightarrow>
   \<forall>res. r = Inr res \<longrightarrow>
     (\<exists>rtree2 img2.
        cegar_reaches api k initialSet effort refinement locator maxNodes rtree img rtree2 img2 \<and>
        cegar_stops api k effort maxNodes rtree2 img2 res)"
proof (induction api k initialSet effort refinement locator maxNodes rtree img r
    rule: cegar_loop.raw_induct[rotated 1, consumes 1])
  case (1 loop api k initialSet effort refinement locator maxNodes rtree img r)
  show ?case
  proof (intro allI impI)
    fix res assume r: "r = Inr res"
    show "\<exists>rtree2 img2.
        cegar_reaches api k initialSet effort refinement locator maxNodes rtree img rtree2 img2 \<and>
        cegar_stops api k effort maxNodes rtree2 img2 res"
    proof (cases "rt_size api rtree < maxNodes")
      case False
      with 1(2) r have "cegar_stops api k effort maxNodes rtree img res"
        by (simp add: cegar_stops_def)
      then show ?thesis
        using cegar_reaches.here[of api k initialSet effort refinement locator maxNodes rtree img]
        by blast
    next
      case True
      with 1(2) obtain cex where cex: "findCounterexample api rtree img [] = Some cex"
        by (auto split: Option.bind_splits)
      show ?thesis
      proof (cases "cex = [] \<or> cegar_certain api k effort rtree img cex")
        case True
        with 1(2) r cex \<open>rt_size api rtree < maxNodes\<close>
        have "cegar_stops api k effort maxNodes rtree img res"
          by (auto simp: cegar_stops_def cegar_certain_def split: list.splits if_splits)
        then show ?thesis
          using cegar_reaches.here[of api k initialSet effort refinement locator maxNodes rtree img]
          by blast
      next
        case False
        then have ne: "cex \<noteq> []" and nc: "\<not> cegar_certain api k effort rtree img cex" by auto
        from 1(2) r cex \<open>rt_size api rtree < maxNodes\<close> ne nc
        obtain rtree1 img1 where
          t: "refineTargets api refinement initialSet rtree img (locator cex) = Inr (rtree1, img1)"
          and l: "loop api k initialSet effort refinement locator maxNodes rtree1 img1 = Some r"
          by (auto simp: cegar_certain_def split: list.splits if_splits sum.splits)
        from 1(1)[OF l] r obtain rtree2 img2 where
          "cegar_reaches api k initialSet effort refinement locator maxNodes rtree1 img1 rtree2 img2"
          "cegar_stops api k effort maxNodes rtree2 img2 res" by blast
        with cegar_reaches.iteration[where locator = locator and counterexample = cex,
            OF \<open>rt_size api rtree < maxNodes\<close> cex ne nc t]
        show ?thesis by blast
      qed
    qed
  qed
qed

text \<open>
  Claim C1.  \<open>cegar\<close> returns a verdict and a path exactly when the loop, started at
  the image of the initial box, comes after some iterations, each started with fewer
  than \<open>maxNodes\<close> nodes, to a tree and an image at which it stops with them: with
  \<open>(True, [])\<close> when \<open>findCounterexample\<close> returns the empty path, with
  \<open>(False, counterexample)\<close> when the counterexample found is definitely not spurious
  and its last node definitely not safe, and with \<open>(Indeterminate, [])\<close> when the tree
  has reached \<open>maxNodes\<close> nodes.
\<close>

theorem cegar_returns_iff:
  "cegar api k rtree initialSet effort refinement locator maxNodes = Some (Inr res) \<longleftrightarrow>
   (\<exists>img rtree2 img2.
      rt_image api rtree initialSet = Inr img \<and>
      cegar_reaches api k initialSet effort refinement locator maxNodes
        rtree (set_insert_range (NodeComparator api rtree) img []) rtree2 img2 \<and>
      cegar_stops api k effort maxNodes rtree2 img2 res)"
proof (cases "rt_image api rtree initialSet")
  case (Inl e)
  then show ?thesis by (simp add: cegar_def)
next
  case (Inr img)
  let ?start = "set_insert_range (NodeComparator api rtree) img []"
  show ?thesis
  proof
    assume "cegar api k rtree initialSet effort refinement locator maxNodes = Some (Inr res)"
    with Inr have "cegar_loop api k initialSet effort refinement locator maxNodes rtree ?start =
        Some (Inr res)"
      by (simp add: cegar_def)
    from cegar_loop_returned[OF this] obtain rtree2 img2 where
      "cegar_reaches api k initialSet effort refinement locator maxNodes rtree ?start rtree2 img2"
      "cegar_stops api k effort maxNodes rtree2 img2 res"
      by blast
    with Inr show "\<exists>img rtree2 img2.
      rt_image api rtree initialSet = Inr img \<and>
      cegar_reaches api k initialSet effort refinement locator maxNodes
        rtree (set_insert_range (NodeComparator api rtree) img []) rtree2 img2 \<and>
      cegar_stops api k effort maxNodes rtree2 img2 res"
      by blast
  next
    assume "\<exists>img rtree2 img2.
      rt_image api rtree initialSet = Inr img \<and>
      cegar_reaches api k initialSet effort refinement locator maxNodes
        rtree (set_insert_range (NodeComparator api rtree) img []) rtree2 img2 \<and>
      cegar_stops api k effort maxNodes rtree2 img2 res"
    with Inr obtain rtree2 img2 where
      "cegar_reaches api k initialSet effort refinement locator maxNodes rtree ?start rtree2 img2"
      "cegar_stops api k effort maxNodes rtree2 img2 res"
      by auto
    from cegar_reaches_returns[OF this] Inr
    show "cegar api k rtree initialSet effort refinement locator maxNodes = Some (Inr res)"
      by (simp add: cegar_def)
  qed
qed

theorem cegar_returns_iff_witness:
  "cegar_reaches (treeApi exampleKernel) exampleKernel (0, 1) 1 bisect butlast 5
     exampleRefined [1] exampleRefinedTwice [3, 4] \<and>
   cegar_stops (treeApi exampleKernel) exampleKernel 1 5 exampleRefinedTwice [3, 4] (KIndeterminate, []) \<and>
   cegar (treeApi exampleKernel) exampleKernel exampleRefined (0, 1) 1 bisect butlast 5 =
     Some (Inr (KIndeterminate, []))"
proof -
  let ?A = "treeApi exampleKernel"
  have img: "rt_image ?A exampleRefined (0, 1) = Inr [1]" by code_simp
  have ins: "set_insert_range (NodeComparator ?A exampleRefined) [1] [] = [1]" by code_simp
  have size: "rt_size ?A exampleRefined < 5" by code_simp
  have cex: "findCounterexample ?A exampleRefined [1] [] = Some [1, 2]" by code_simp
  have ne: "[1, 2::nat] \<noteq> []" by simp
  have nc: "\<not> cegar_certain ?A exampleKernel 1 exampleRefined [1] [1, 2]" by code_simp
  have "rt_nodeValue ?A exampleRefined 1 \<noteq> None" by code_simp
  moreover have "rt_refine ?A exampleRefined 1 bisect = Inr exampleRefinedTwice"
    by (simp add: treeApi_def exampleRefinedTwice_built del: One_nat_def)
  moreover have "set_find (NodeComparator ?A exampleRefined) 1 [1] = Some 1" by code_simp
  moreover have "rt_treeNode ?A exampleRefined 1 = [0]" by code_simp
  moreover have "rt_imageFrom ?A exampleRefinedTwice (0, 1) [0] = Inr [3, 4]" by code_simp
  moreover have "set_insert_range (NodeComparator ?A exampleRefinedTwice) [3, 4] [] = [3, 4]"
    by code_simp
  ultimately have t: "refineTargets ?A bisect (0, 1) exampleRefined [1] (butlast [1, 2]) =
           Inr (exampleRefinedTwice, [3, 4])"
    by (simp del: One_nat_def)
  have reach: "cegar_reaches ?A exampleKernel (0, 1) 1 bisect butlast 5
     exampleRefined [1] exampleRefinedTwice [3, 4]"
    using size cex ne nc t
      cegar_reaches.here[of ?A exampleKernel "(0, 1)" 1 bisect butlast 5 exampleRefinedTwice "[3, 4]"]
    by (rule cegar_reaches.iteration[where locator = butlast and counterexample = "[1, 2]"])
  have stop: "cegar_stops ?A exampleKernel 1 5 exampleRefinedTwice [3, 4] (KIndeterminate, [])"
    unfolding cegar_stops_def by code_simp
  have "cegar ?A exampleKernel exampleRefined (0, 1) 1 bisect butlast 5 =
     Some (Inr (KIndeterminate, []))"
    unfolding cegar_returns_iff using img ins reach stop by auto
  with reach stop show ?thesis by simp
qed

section \<open>Properties of refine\<close>

lemma with_edges_same [simp]: "with_edges rt (gedges (mMappings rt)) = rt"
  by (simp add: with_edges_def)

lemma with_edges_twice [simp]: "with_edges (with_edges rt es) es' = with_edges rt es'"
  by (simp add: with_edges_def)

lemma with_edges_fields [simp]:
  "mConstraints (with_edges rt es) = mConstraints rt"
  "mDynamics (with_edges rt es) = mDynamics rt"
  "mEffort (with_edges rt es) = mEffort rt"
  "mRefinements (with_edges rt es) = mRefinements rt"
  "gverts (mMappings (with_edges rt es)) = gverts (mMappings rt)"
  "gnext (mMappings (with_edges rt es)) = gnext (mMappings rt)"
  "gedges (mMappings (with_edges rt es)) = es"
  by (simp_all add: with_edges_def)

lemma addEdge_with_edges:
  "rt\<lparr>mMappings := addEdge (mMappings rt) a b\<rparr> =
     with_edges rt (gedges (addEdge (mMappings rt) a b))"
  by (simp add: with_edges_def addEdge_def)

lemma set_addEdge: "set (gedges (addEdge g a b)) = insert (a, b) (set (gedges g))"
  by (auto simp: addEdge_def)

lemma nodeValue_with_edges [simp]: "nodeValue (with_edges rt es) v = nodeValue rt v"
  by (simp add: nodeValue_def graph_value_def split: option.splits)

lemma isReachable_with_edges [simp]:
  "isReachable k (with_edges rt es) a b = isReachable k rt a b"
  by (simp add: isReachable_def split: sum.splits)

lemma reaches_with_edges [simp]: "reaches k (with_edges rt es) a b = reaches k rt a b"
  by (simp add: reaches_def)

lemma findVertex_with_edges [simp]:
  "findVertex (mMappings (with_edges rt es)) tn = findVertex (mMappings rt) tn"
  by (simp add: findVertex_def)

lemma leavesT_with_edges [simp]: "leavesT (with_edges rt es) treev = leavesT rt treev"
proof (induction rt treev rule: leavesT.induct)
  case (1 rt treev)
  note unfold = leavesT.simps[of "with_edges rt es" treev] leavesT.simps[of rt treev]
  show ?case
  proof (cases "tree_value (mRefinements rt) treev")
    case None
    then show ?thesis unfolding unfold by simp
  next
    case (Some tv)
    show ?thesis
    proof (cases "tree_isLeaf (mRefinements rt) treev")
      case True
      with Some show ?thesis unfolding unfold by simp
    next
      case False
      from 1[OF Some False]
      have m: "map (leavesT (with_edges rt es)) (tree_children (mRefinements rt) treev) =
            map (leavesT rt) (tree_children (mRefinements rt) treev)"
        by simp
      from Some False show ?thesis unfolding unfold by (simp add: m)
    qed
  qed
qed

lemma leavesV_with_edges [simp]: "leavesV (with_edges rt es) v = leavesV rt v"
  by (simp add: leavesV_def graph_value_def split: option.splits)

lemma leavesBelow_with_edges [simp]: "leavesBelow (with_edges rt es) ps = leavesBelow rt ps"
  by (simp add: leavesBelow_def)

lemma addPreLeafEdges_edges:
  "addPreLeafEdges k rt c ls = Inr rt' \<Longrightarrow>
   \<exists>es. rt' = with_edges rt es \<and>
        set es = set (gedges (mMappings rt)) \<union> {(l, c) | l. l \<in> set ls \<and> reaches k rt l c}"
proof (induction ls arbitrary: rt)
  case Nil
  then show ?case by (auto intro: exI[of _ "gedges (mMappings rt)"])
next
  case (Cons l ls)
  from Cons.prems obtain r where r: "isReachable k rt l c = Inr r"
    by (auto split: sum.splits)
  let ?es1 = "if possibly r then gedges (addEdge (mMappings rt) l c) else gedges (mMappings rt)"
  have step: "(if possibly r then rt\<lparr>mMappings := addEdge (mMappings rt) l c\<rparr> else rt) =
        with_edges rt ?es1"
    by (simp add: addEdge_with_edges)
  with Cons.prems r have "addPreLeafEdges k (with_edges rt ?es1) c ls = Inr rt'" by simp
  from Cons.IH[OF this] obtain es where
    es: "rt' = with_edges rt es"
        "set es = set ?es1 \<union> {(l', c) | l'. l' \<in> set ls \<and> reaches k rt l' c}"
    by auto
  have "set ?es1 = set (gedges (mMappings rt)) \<union> {(l', c) | l'. l' = l \<and> reaches k rt l' c}"
    using r by (auto simp: set_addEdge reaches_def)
  with es show ?case by (intro exI[of _ es]) auto
qed

lemma addPreEdges_edges:
  "addPreEdges k rt c pres = Inr rt' \<Longrightarrow>
   \<exists>es. rt' = with_edges rt es \<and>
        set es = set (gedges (mMappings rt)) \<union>
                 {(l, c) | l. l \<in> leavesBelow rt pres \<and> reaches k rt l c}"
proof (induction pres arbitrary: rt)
  case Nil
  then show ?case by (auto simp: leavesBelow_def intro: exI[of _ "gedges (mMappings rt)"])
next
  case (Cons p pres)
  from Cons.prems obtain ls rt1 where
    ls: "leavesV rt p = Inr ls" and
    one: "addPreLeafEdges k rt c ls = Inr rt1" and
    rest: "addPreEdges k rt1 c pres = Inr rt'"
    by (auto split: sum.splits)
  from addPreLeafEdges_edges[OF one] obtain es1 where
    es1: "rt1 = with_edges rt es1"
         "set es1 = set (gedges (mMappings rt)) \<union> {(l, c) | l. l \<in> set ls \<and> reaches k rt l c}"
    by auto
  from Cons.IH[OF rest] es1(1) obtain es where
    es: "rt' = with_edges rt es"
        "set es = set es1 \<union> {(l, c) | l. l \<in> leavesBelow rt pres \<and> reaches k rt l c}"
    by auto
  have "leavesBelow rt (p # pres) = set ls \<union> leavesBelow rt pres"
    using ls by (auto simp: leavesBelow_def)
  with es es1(2) show ?case by (intro exI[of _ es]) auto
qed

lemma addPostLeafEdges_edges:
  "addPostLeafEdges k rt c ls = Inr rt' \<Longrightarrow>
   \<exists>es. rt' = with_edges rt es \<and>
        set es = set (gedges (mMappings rt)) \<union> {(c, l) | l. l \<in> set ls \<and> reaches k rt c l}"
proof (induction ls arbitrary: rt)
  case Nil
  then show ?case by (auto intro: exI[of _ "gedges (mMappings rt)"])
next
  case (Cons l ls)
  from Cons.prems obtain r where r: "isReachable k rt c l = Inr r"
    by (auto split: sum.splits)
  let ?es1 = "if possibly r then gedges (addEdge (mMappings rt) c l) else gedges (mMappings rt)"
  have step: "(if possibly r then rt\<lparr>mMappings := addEdge (mMappings rt) c l\<rparr> else rt) =
        with_edges rt ?es1"
    by (simp add: addEdge_with_edges)
  with Cons.prems r have "addPostLeafEdges k (with_edges rt ?es1) c ls = Inr rt'" by simp
  from Cons.IH[OF this] obtain es where
    es: "rt' = with_edges rt es"
        "set es = set ?es1 \<union> {(c, l') | l'. l' \<in> set ls \<and> reaches k rt c l'}"
    by auto
  have "set ?es1 = set (gedges (mMappings rt)) \<union> {(c, l') | l'. l' = l \<and> reaches k rt c l'}"
    using r by (auto simp: set_addEdge reaches_def)
  with es show ?case by (intro exI[of _ es]) auto
qed

lemma addPostEdges_edges:
  "addPostEdges k rt c posts = Inr rt' \<Longrightarrow>
   \<exists>es. rt' = with_edges rt es \<and>
        set es = set (gedges (mMappings rt)) \<union>
                 {(c, l) | l. l \<in> leavesBelow rt posts \<and> reaches k rt c l}"
proof (induction posts arbitrary: rt)
  case Nil
  then show ?case by (auto simp: leavesBelow_def intro: exI[of _ "gedges (mMappings rt)"])
next
  case (Cons p posts)
  from Cons.prems obtain ls rt1 where
    ls: "leavesV rt p = Inr ls" and
    one: "addPostLeafEdges k rt c ls = Inr rt1" and
    rest: "addPostEdges k rt1 c posts = Inr rt'"
    by (auto split: sum.splits)
  from addPostLeafEdges_edges[OF one] obtain es1 where
    es1: "rt1 = with_edges rt es1"
         "set es1 = set (gedges (mMappings rt)) \<union> {(c, l) | l. l \<in> set ls \<and> reaches k rt c l}"
    by auto
  from Cons.IH[OF rest] es1(1) obtain es where
    es: "rt' = with_edges rt es"
        "set es = set es1 \<union> {(c, l) | l. l \<in> leavesBelow rt posts \<and> reaches k rt c l}"
    by auto
  have "leavesBelow rt (p # posts) = set ls \<union> leavesBelow rt posts"
    using ls by (auto simp: leavesBelow_def)
  with es es1(2) show ?case by (intro exI[of _ es]) auto
qed

lemma addRefinedEdges_edges:
  "addRefinedEdges k rt cs pres posts = Inr rt' \<Longrightarrow>
   \<exists>es. rt' = with_edges rt es \<and>
        set es = set (gedges (mMappings rt)) \<union>
                 {(l, c) | l c. c \<in> set cs \<and> l \<in> leavesBelow rt pres \<and> reaches k rt l c} \<union>
                 {(c, l) | l c. c \<in> set cs \<and> l \<in> leavesBelow rt posts \<and> reaches k rt c l}"
proof (induction cs arbitrary: rt)
  case Nil
  then show ?case by (auto intro: exI[of _ "gedges (mMappings rt)"])
next
  case (Cons c cs)
  from Cons.prems obtain rt1 rt2 where
    pre: "addPreEdges k rt c pres = Inr rt1" and
    post: "addPostEdges k rt1 c posts = Inr rt2" and
    rest: "addRefinedEdges k rt2 cs pres posts = Inr rt'"
    by (auto split: sum.splits)
  from addPreEdges_edges[OF pre] obtain es1 where
    es1: "rt1 = with_edges rt es1"
         "set es1 = set (gedges (mMappings rt)) \<union>
                 {(l, c) | l. l \<in> leavesBelow rt pres \<and> reaches k rt l c}"
    by auto
  from addPostEdges_edges[OF post] es1(1) obtain es2 where
    es2: "rt2 = with_edges rt es2"
         "set es2 = set es1 \<union> {(c, l) | l. l \<in> leavesBelow rt posts \<and> reaches k rt c l}"
    by auto
  from Cons.IH[OF rest] es2(1) obtain es where
    es: "rt' = with_edges rt es"
        "set es = set es2 \<union>
                 {(l, c) | l c. c \<in> set cs \<and> l \<in> leavesBelow rt pres \<and> reaches k rt l c} \<union>
                 {(c, l) | l c. c \<in> set cs \<and> l \<in> leavesBelow rt posts \<and> reaches k rt c l}"
    by auto
  show ?case
    by (intro exI[of _ es]) (use es es1(2) es2(2) in auto)
qed

lemma collect_map_Inr: "collect (map Inr xss) = Inr (concat xss)"
  by (induction xss) simp_all

lemma collect_Inr_D: "collect rs = Inr hs \<Longrightarrow> \<exists>xss. rs = map Inr xss \<and> hs = concat xss"
proof (induction rs arbitrary: hs)
  case Nil
  then show ?case by simp
next
  case (Cons r rs)
  from Cons.prems obtain xs ys where r: "r = Inr xs" and ys: "collect rs = Inr ys"
    and hs: "hs = xs @ ys"
    by (auto split: sum.splits)
  from Cons.IH[OF ys] obtain xss where "rs = map Inr xss" "ys = concat xss" by blast
  with r hs show ?case by (intro exI[of _ "xs # xss"]) simp
qed

lemma tree_expand_subtree:
  "tree_expand t n vals = Some t' \<Longrightarrow>
   \<exists>v. subtree t n = Some (TreeNode v []) \<and>
       subtree t' n = Some (TreeNode v (map (\<lambda>w. TreeNode w []) vals))"
proof (induction t n vals arbitrary: t' rule: tree_expand.induct)
  case (1 v cs vals)
  then show ?case by (auto split: if_splits)
next
  case (2 v cs i p vals)
  then show ?case by (auto split: if_splits option.splits)
qed

lemma tree_expand_children:
  assumes "tree_expand t n vals = Some t'"
  shows "tree_children t' n = map (\<lambda>i. n @ [i]) [0..<length vals]"
    and "i < length vals \<Longrightarrow> tree_value t' (n @ [i]) = Some (vals ! i)"
    and "i < length vals \<Longrightarrow> tree_isLeaf t' (n @ [i])"
    and "tree_isLeaf t' n = (vals = [])"
    and "tree_isLeaf t n"
    and "tree_value t' n = tree_value t n"
  using tree_expand_subtree[OF assms]
  by (auto simp: tree_children_def tree_value_def tree_isLeaf_def subtree_append)

lemma addVertices_result:
  "addVertices g cs = (g', hs) \<Longrightarrow>
   hs = [gnext g..<gnext g + length cs] \<and>
   g' = g\<lparr>gverts := gverts g @ zip hs cs, gnext := gnext g + length cs\<rparr>"
proof (induction cs arbitrary: g g' hs)
  case Nil
  then show ?case by simp
next
  case (Cons c cs)
  obtain g1 h where a: "addVertex g c = (g1, h)" by (cases "addVertex g c")
  obtain g2 hs2 where b: "addVertices g1 cs = (g2, hs2)" by (cases "addVertices g1 cs")
  from a have g1: "h = gnext g" "g1 = g\<lparr>gverts := gverts g @ [(gnext g, c)], gnext := Suc (gnext g)\<rparr>"
    by (auto simp: addVertex_def)
  from Cons.prems a b have r: "g' = g2" "hs = h # hs2" by auto
  have "[gnext g..<gnext g + length (c # cs)] =
        gnext g # [Suc (gnext g)..<Suc (gnext g) + length cs]"
    by (simp add: upt_conv_Cons del: upt_Suc)
  with Cons.IH[OF b] g1 r show ?case
    by simp
qed

lemma length_refinedValues:
  "length refined \<le> branchN \<Longrightarrow> length (refinedValues k rt refined) = branchN"
  by (simp add: refinedValues_def)

lemma refine_steps:
  assumes "refine k rt v r = Inr rt'"
  shows "\<exists>treev tv expanded es.
           graph_value (mMappings rt) v = Some treev \<and>
           tree_value (mRefinements rt) treev = Some tv \<and>
           length (r (mEnclosure tv)) \<le> branchN \<and>
           tree_expand (mRefinements rt) treev (refinedValues k rt (r (mEnclosure tv))) = Some expanded \<and>
           addRefinedEdges k (refineExpanded rt treev expanded)
             [gnext (mMappings rt)..<gnext (mMappings rt) + branchN]
             (preimage rt v @ [v]) (postimage rt v @ [v]) =
             Inr (with_edges (refineExpanded rt treev expanded) es) \<and>
           rt' = (refineExpanded rt treev expanded)
                   \<lparr>mMappings := removeVertex (mMappings (with_edges (refineExpanded rt treev expanded) es)) v\<rparr>"
proof -
  from assms obtain treev where treev: "graph_value (mMappings rt) v = Some treev"
    by (auto simp: refine_def split: option.splits)
  from assms treev obtain tv where tv: "tree_value (mRefinements rt) treev = Some tv"
    by (auto simp: refine_def split: option.splits)
  let ?refined = "r (mEnclosure tv)"
  from assms treev tv have len: "length ?refined \<le> branchN"
    by (auto simp: refine_def Let_def split: if_splits)
  from assms treev tv len obtain expanded where
    ex: "tree_expand (mRefinements rt) treev (refinedValues k rt ?refined) = Some expanded"
    by (auto simp: refine_def Let_def split: option.splits)
  let ?cs = "tree_children expanded treev"
  have cs: "length ?cs = branchN"
    using tree_expand_children(1)[OF ex] length_refinedValues[OF len] by simp
  obtain g2 hs where av: "addVertices (mMappings rt) ?cs = (g2, hs)"
    by (cases "addVertices (mMappings rt) ?cs")
  from addVertices_result[OF av] cs have
    hs: "hs = [gnext (mMappings rt)..<gnext (mMappings rt) + branchN]" and
    g2: "g2 = (mMappings rt)\<lparr>gverts := gverts (mMappings rt) @ zip hs ?cs,
                              gnext := gnext (mMappings rt) + branchN\<rparr>"
    by simp_all
  let ?rt2 = "refineExpanded rt treev expanded"
  have rt2: "rt\<lparr>mRefinements := expanded, mMappings := g2\<rparr> = ?rt2"
    by (simp add: refineExpanded_def g2 hs)
  have pp: "preimage ?rt2 v = preimage rt v" "postimage ?rt2 v = postimage rt v"
    by (simp_all add: preimage_def postimage_def inEdges_def outEdges_def refineExpanded_def)
  from assms treev tv len ex av obtain rt3 where
    loops: "addRefinedEdges k ?rt2 hs (preimage rt v @ [v]) (postimage rt v @ [v]) = Inr rt3"
    and rt': "rt' = rt3\<lparr>mMappings := removeVertex (mMappings rt3) v\<rparr>"
    unfolding refine_def by (auto simp: Let_def pp rt2 split: sum.splits)
  from addRefinedEdges_edges[OF loops] obtain es where es: "rt3 = with_edges ?rt2 es" by auto
  have "rt' = ?rt2\<lparr>mMappings := removeVertex (mMappings (with_edges ?rt2 es)) v\<rparr>"
    unfolding rt' es by (simp add: with_edges_def)
  with treev tv len ex loops es hs show ?thesis by blast
qed

lemma addPreLeafEdges_failed:
  "addPreLeafEdges k rt c ls = Inl (e, rt') \<Longrightarrow> \<exists>es. rt' = with_edges rt es"
proof (induction ls arbitrary: rt)
  case Nil
  then show ?case by simp
next
  case (Cons l ls)
  show ?case
  proof (cases "isReachable k rt l c")
    case (Inl x)
    with Cons.prems have "rt' = rt" by simp
    then show ?thesis by (metis with_edges_same)
  next
    case (Inr r)
    let ?rt1 = "if possibly r then rt\<lparr>mMappings := addEdge (mMappings rt) l c\<rparr> else rt"
    from Cons.prems Inr have "addPreLeafEdges k ?rt1 c ls = Inl (e, rt')" by simp
    from Cons.IH[OF this] obtain es where "rt' = with_edges ?rt1 es" by blast
    then show ?thesis by (auto simp: addEdge_with_edges split: if_splits)
  qed
qed

lemma addPostLeafEdges_failed:
  "addPostLeafEdges k rt c ls = Inl (e, rt') \<Longrightarrow> \<exists>es. rt' = with_edges rt es"
proof (induction ls arbitrary: rt)
  case Nil
  then show ?case by simp
next
  case (Cons l ls)
  show ?case
  proof (cases "isReachable k rt c l")
    case (Inl x)
    with Cons.prems have "rt' = rt" by simp
    then show ?thesis by (metis with_edges_same)
  next
    case (Inr r)
    let ?rt1 = "if possibly r then rt\<lparr>mMappings := addEdge (mMappings rt) c l\<rparr> else rt"
    from Cons.prems Inr have "addPostLeafEdges k ?rt1 c ls = Inl (e, rt')" by simp
    from Cons.IH[OF this] obtain es where "rt' = with_edges ?rt1 es" by blast
    then show ?thesis by (auto simp: addEdge_with_edges split: if_splits)
  qed
qed

lemma addPreEdges_failed:
  "addPreEdges k rt c pres = Inl (e, rt') \<Longrightarrow> \<exists>es. rt' = with_edges rt es"
proof (induction pres arbitrary: rt)
  case Nil
  then show ?case by simp
next
  case (Cons p pres)
  show ?case
  proof (cases "leavesV rt p")
    case (Inl x)
    with Cons.prems have "rt' = rt" by simp
    then show ?thesis by (metis with_edges_same)
  next
    case (Inr ls)
    show ?thesis
    proof (cases "addPreLeafEdges k rt c ls")
      case (Inl x)
      with Cons.prems Inr have "addPreLeafEdges k rt c ls = Inl (e, rt')" by simp
      then show ?thesis by (rule addPreLeafEdges_failed)
    next
      case one: (Inr rt1)
      from addPreLeafEdges_edges[OF one] obtain es1 where es1: "rt1 = with_edges rt es1" by blast
      from Cons.prems Inr one have "addPreEdges k rt1 c pres = Inl (e, rt')" by simp
      from Cons.IH[OF this] es1 show ?thesis by auto
    qed
  qed
qed

lemma addPostEdges_failed:
  "addPostEdges k rt c posts = Inl (e, rt') \<Longrightarrow> \<exists>es. rt' = with_edges rt es"
proof (induction posts arbitrary: rt)
  case Nil
  then show ?case by simp
next
  case (Cons p posts)
  show ?case
  proof (cases "leavesV rt p")
    case (Inl x)
    with Cons.prems have "rt' = rt" by simp
    then show ?thesis by (metis with_edges_same)
  next
    case (Inr ls)
    show ?thesis
    proof (cases "addPostLeafEdges k rt c ls")
      case (Inl x)
      with Cons.prems Inr have "addPostLeafEdges k rt c ls = Inl (e, rt')" by simp
      then show ?thesis by (rule addPostLeafEdges_failed)
    next
      case one: (Inr rt1)
      from addPostLeafEdges_edges[OF one] obtain es1 where es1: "rt1 = with_edges rt es1" by blast
      from Cons.prems Inr one have "addPostEdges k rt1 c posts = Inl (e, rt')" by simp
      from Cons.IH[OF this] es1 show ?thesis by auto
    qed
  qed
qed

lemma addRefinedEdges_failed:
  "addRefinedEdges k rt cs pres posts = Inl (e, rt') \<Longrightarrow> \<exists>es. rt' = with_edges rt es"
proof (induction cs arbitrary: rt)
  case Nil
  then show ?case by simp
next
  case (Cons c cs)
  show ?case
  proof (cases "addPreEdges k rt c pres")
    case (Inl x)
    with Cons.prems have "addPreEdges k rt c pres = Inl (e, rt')" by simp
    then show ?thesis by (rule addPreEdges_failed)
  next
    case pre: (Inr rt1)
    from addPreEdges_edges[OF pre] obtain es1 where es1: "rt1 = with_edges rt es1" by blast
    show ?thesis
    proof (cases "addPostEdges k rt1 c posts")
      case (Inl x)
      with Cons.prems pre have "addPostEdges k rt1 c posts = Inl (e, rt')" by simp
      from addPostEdges_failed[OF this] es1 show ?thesis by auto
    next
      case post: (Inr rt2)
      from addPostEdges_edges[OF post] es1 obtain es2 where es2: "rt2 = with_edges rt es2" by auto
      from Cons.prems pre post have "addRefinedEdges k rt2 cs pres posts = Inl (e, rt')" by simp
      from Cons.IH[OF this] es2 show ?thesis by auto
    qed
  qed
qed

lemma refine_failed:
  assumes "refine k rt v r = Inl (e, rt')"
  shows "mConstraints rt' = mConstraints rt \<and> mDynamics rt' = mDynamics rt \<and> mEffort rt' = mEffort rt"
proof (cases "rt' = rt")
  case True
  then show ?thesis by simp
next
  case False
  with assms obtain treev tv expanded g2 hs where
    "addVertices (mMappings (rt\<lparr>mRefinements := expanded\<rparr>))
       (tree_children (mRefinements (rt\<lparr>mRefinements := expanded\<rparr>)) treev) = (g2, hs)"
    "addRefinedEdges k (rt\<lparr>mRefinements := expanded, mMappings := g2\<rparr>) hs
       (preimage (rt\<lparr>mRefinements := expanded, mMappings := g2\<rparr>) v @ [v])
       (postimage (rt\<lparr>mRefinements := expanded, mMappings := g2\<rparr>) v @ [v]) = Inl (e, rt')"
    unfolding refine_def
    by (auto simp: Let_def split: option.splits if_splits sum.splits prod.splits)
  from addRefinedEdges_failed[OF this(2)] show ?thesis by auto
qed

text \<open>
  Claim C9.  A call of \<open>refine\<close>, whether it returns or throws, leaves the constraint
  set, the dynamics and the effort of the refinement tree as they were; only the tree
  and the graph change.
\<close>

theorem refine_frame:
  assumes "refine k rt v r = Inr rt' \<or> refine k rt v r = Inl (e, rt')"
  shows "constraints rt' = constraints rt \<and> dynamics rt' = dynamics rt \<and> mEffort rt' = mEffort rt"
proof -
  from assms show ?thesis
  proof
    assume "refine k rt v r = Inr rt'"
    from refine_steps[OF this] show ?thesis
      by (auto simp: constraints_def dynamics_def refineExpanded_def)
  next
    assume "refine k rt v r = Inl (e, rt')"
    from refine_failed[OF this] show ?thesis
      by (simp add: constraints_def dynamics_def)
  qed
qed

theorem refine_frame_witness:
  "refine exampleKernel exampleRoot 0 bisect = Inr exampleRefined \<and>
   constraints exampleRefined = (0, 1) \<and> dynamics exampleRefined = (1, 0) \<and>
   mEffort exampleRefined = 1 \<and>
   refine exampleKernel exampleRefined 0 bisect = Inl (InvalidHandle, exampleRefined)"
proof -
  have "constraints exampleRoot = (0, 1)" "dynamics exampleRoot = (1, 0)" "mEffort exampleRoot = 1"
    by (simp_all add: constraints_def dynamics_def exampleRoot_def)
  with refine_frame[OF disjI1[OF exampleRefined_built]]
  have returned: "constraints exampleRefined = (0, 1) \<and> dynamics exampleRefined = (1, 0) \<and>
      mEffort exampleRefined = 1"
    by simp
  have thrown: "refine exampleKernel exampleRefined 0 bisect = Inl (InvalidHandle, exampleRefined)"
    by code_simp
  from refine_frame[OF disjI2[OF thrown]] returned thrown exampleRefined_built
  show ?thesis by simp
qed

text \<open>
  The children that \<open>refine\<close> makes: the child for a box of the strategy holds that box
  and the verdict of \<open>constraints.overlaps( box ).check( effort )\<close> on it; the flag of
  the refined node is not read.
\<close>

lemma refine_child_values:
  assumes "refine k rt v r = Inr rt'"
  shows "\<exists>treev tv.
           graph_value (mMappings rt) v = Some treev \<and>
           tree_value (mRefinements rt) treev = Some tv \<and>
           tree_children (mRefinements rt') treev = map (\<lambda>i. treev @ [i]) [0..<branchN] \<and>
           (\<forall>i<branchN.
              tree_value (mRefinements rt') (treev @ [i]) =
                (if i < length (r (mEnclosure tv))
                 then Some \<lparr>mEnclosure = r (mEnclosure tv) ! i,
                            mSafe = overlaps_check k (mConstraints rt) (r (mEnclosure tv) ! i) (mEffort rt)\<rparr>
                 else Some (defaultTreeValue k)))"
proof -
  from refine_steps[OF assms] obtain treev tv expanded es where
    s: "graph_value (mMappings rt) v = Some treev"
       "tree_value (mRefinements rt) treev = Some tv"
       "length (r (mEnclosure tv)) \<le> branchN"
       "tree_expand (mRefinements rt) treev (refinedValues k rt (r (mEnclosure tv))) = Some expanded"
       "rt' = (refineExpanded rt treev expanded)
                   \<lparr>mMappings := removeVertex (mMappings (with_edges (refineExpanded rt treev expanded) es)) v\<rparr>"
    by blast
  have t': "mRefinements rt' = expanded" by (simp add: s(5) refineExpanded_def)
  note len = length_refinedValues[OF s(3), of k rt]
  have "tree_children expanded treev = map (\<lambda>i. treev @ [i]) [0..<branchN]"
    using tree_expand_children(1)[OF s(4)] len by simp
  moreover have "tree_value expanded (treev @ [i]) =
                (if i < length (r (mEnclosure tv))
                 then Some \<lparr>mEnclosure = r (mEnclosure tv) ! i,
                            mSafe = overlaps_check k (mConstraints rt) (r (mEnclosure tv) ! i) (mEffort rt)\<rparr>
                 else Some (defaultTreeValue k))" if "i < branchN" for i
    using tree_expand_children(2)[OF s(4), of i] len that
    by (auto simp: refinedValues_def nth_append)
  ultimately show ?thesis using s(1,2) t' by auto
qed

text \<open>
  Claim C6.  The constructor flags the root \<open>[0, 4]\<close> safe, since it overlaps the
  constraint \<open>[0, 1]\<close>; \<open>refine\<close> with bisection gives it the child \<open>[2, 4]\<close>, which
  does not overlap the constraint and is flagged not safe.  The flag of the parent is
  True and the flag of a child is False.
\<close>

theorem refine_child_flag_not_inherited:
  "newRefinementTree exampleKernel (0, 4) (0, 1) (1, 0) 1 = Inr exampleRoot \<and>
   nodeValue exampleRoot 0 = Inr \<lparr>mEnclosure = (0, 4), mSafe = KTrue\<rparr> \<and>
   refine exampleKernel exampleRoot 0 bisect = Inr exampleRefined \<and>
   tree_children (mRefinements exampleRefined) [] = [[0], [1]] \<and>
   tree_value (mRefinements exampleRefined) [1] = Some \<lparr>mEnclosure = (2, 4), mSafe = KFalse\<rparr> \<and>
   nodeValue exampleRefined 2 = Inr \<lparr>mEnclosure = (2, 4), mSafe = KFalse\<rparr>"
proof -
  have "nodeValue exampleRoot 0 = Inr \<lparr>mEnclosure = (0, 4), mSafe = KTrue\<rparr>" by code_simp
  moreover have "tree_children (mRefinements exampleRefined) [] = [[0], [1]]" by code_simp
  moreover have "tree_value (mRefinements exampleRefined) [1] =
      Some \<lparr>mEnclosure = (2, 4), mSafe = KFalse\<rparr>" by code_simp
  moreover have "nodeValue exampleRefined 2 = Inr \<lparr>mEnclosure = (2, 4), mSafe = KFalse\<rparr>"
    by code_simp
  ultimately show ?thesis using exampleRoot_built exampleRefined_built by simp
qed

text \<open>
  cegar.hpp reads the flag as \<open>covers( safeSet, bx )\<close>, and a box that the safe set
  covers has only parts that the safe set covers; the constructor and \<open>refine\<close> store
  \<open>overlaps\<close>.  What that does to the driver: for the initial set \<open>[3, 4]\<close>, which
  lies outside the constraint \<open>[0, 1]\<close>, \<open>cegar\<close> answers True on the tree of the root
  alone, and False with the path to the leaf \<open>[2, 4]\<close> on the tree with the bisected
  root.
\<close>

lemma exampleRoot_answered_safe:
  "cegar (treeApi exampleKernel) exampleKernel exampleRoot (3, 4) 1 bisect butlast 2 =
     Some (Inr (KTrue, []))"
  by code_simp

lemma exampleRefined_answered_unsafe:
  "cegar (treeApi exampleKernel) exampleKernel exampleRefined (3, 4) 1 bisect butlast 5 =
     Some (Inr (KFalse, [2]))"
  by code_simp

section \<open>Properties of image\<close>

lemma findVertex_Some: "findVertex g tn = Some h \<Longrightarrow> (h, tn) \<in> set (gverts g)"
  by (auto simp: findVertex_def find_Some_iff in_set_conv_nth)

lemma vertex_value_unique:
  "distinct (map fst (gverts g)) \<Longrightarrow> (h, a) \<in> set (gverts g) \<Longrightarrow> (h, b) \<in> set (gverts g) \<Longrightarrow>
   a = b"
  by (meson eq_key_imp_eq_value)

lemma distinct_concat_indexed:
  "(\<And>i. i < length xss \<Longrightarrow> distinct (xss ! i)) \<Longrightarrow>
   (\<And>i j. i < j \<Longrightarrow> j < length xss \<Longrightarrow> set (xss ! i) \<inter> set (xss ! j) = {}) \<Longrightarrow>
   distinct (concat xss)"
proof (induction xss)
  case Nil
  show ?case by simp
next
  case (Cons xs xss)
  have "distinct xs" using Cons.prems(1)[of 0] by simp
  moreover have "distinct (concat xss)"
  proof (rule Cons.IH)
    fix i assume "i < length xss"
    then show "distinct (xss ! i)" using Cons.prems(1)[of "Suc i"] by simp
  next
    fix i j assume "i < j" "j < length xss"
    then show "set (xss ! i) \<inter> set (xss ! j) = {}"
      using Cons.prems(2)[of "Suc i" "Suc j"] by simp
  qed
  moreover have "set xs \<inter> set (concat xss) = {}"
  proof -
    have "set xs \<inter> set ys = {}" if "ys \<in> set xss" for ys
    proof -
      from that obtain j where "j < length xss" "ys = xss ! j"
        by (auto simp: in_set_conv_nth)
      then show ?thesis using Cons.prems(2)[of 0 "Suc j"] by simp
    qed
    then show ?thesis by auto
  qed
  ultimately show ?case by simp
qed

lemma imageRecursive_vertices:
  "imageRecursive k rt from to = Inr hs \<Longrightarrow> distinct (map fst (gverts (mMappings rt))) \<Longrightarrow>
         distinct hs \<and>
         (\<forall>h\<in>set hs. \<exists>m. (h, to @ m) \<in> set (gverts (mMappings rt)) \<and>
                          tree_isLeaf (mRefinements rt) (to @ m))"
proof (induction k rt "from" to arbitrary: hs rule: imageRecursive.induct)
  case (1 k rt frm to)
  note d = "1.prems"(2)
  from "1.prems"(1) obtain tv where tv: "tree_value (mRefinements rt) to = Some tv"
    unfolding imageRecursive.simps[of k rt frm to] by (auto split: option.splits)
  show ?case
  proof (cases "definitely (is_empty k (intersection k frm (mEnclosure tv)))")
    case True
    with "1.prems"(1) tv show ?thesis
      unfolding imageRecursive.simps[of k rt frm to] by (simp add: Let_def)
  next
    case nonempty: False
    show ?thesis
    proof (cases "tree_isLeaf (mRefinements rt) to")
      case True
      with "1.prems"(1) tv nonempty obtain h where
        "findVertex (mMappings rt) to = Some h" "hs = [h]"
        unfolding imageRecursive.simps[of k rt frm to]
        by (auto simp: Let_def split: option.splits)
      with True findVertex_Some[of "mMappings rt" to h] show ?thesis
        by (auto intro: exI[of _ "[]"])
    next
      case False
      let ?cs = "tree_children (mRefinements rt) to"
      from "1.prems"(1) tv nonempty False have
        "collect (map (imageRecursive k rt frm) ?cs) = Inr hs"
        unfolding imageRecursive.simps[of k rt frm to] by (simp add: Let_def)
      from collect_Inr_D[OF this] obtain xss where
        xss: "map (imageRecursive k rt frm) ?cs = map Inr xss" "hs = concat xss"
        by blast
      from xss(1) have len: "length xss = length ?cs" by (metis length_map)
      have child: "imageRecursive k rt frm (?cs ! i) = Inr (xss ! i)" if "i < length xss" for i
        using xss(1) that len by (metis nth_map)
      have csi: "?cs ! i = to @ [i]" if "i < length xss" for i
        using that len by (auto simp: tree_children_def split: option.splits FixedBranchTree.splits)
      have ih: "distinct (xss ! i) \<and>
         (\<forall>h\<in>set (xss ! i). \<exists>m. (h, (to @ [i]) @ m) \<in> set (gverts (mMappings rt)) \<and>
                          tree_isLeaf (mRefinements rt) ((to @ [i]) @ m))"
        if "i < length xss" for i
      proof -
        from that len have "?cs ! i \<in> set ?cs" by simp
        from "1.IH"[OF tv refl refl refl nonempty False this child[OF that] d]
        show ?thesis using csi[OF that] by simp
      qed
      have "distinct (concat xss)"
      proof (rule distinct_concat_indexed)
        fix i assume "i < length xss"
        then show "distinct (xss ! i)" using ih by blast
      next
        fix i j assume ij: "i < j" "j < length xss"
        show "set (xss ! i) \<inter> set (xss ! j) = {}"
        proof (rule ccontr)
          assume "set (xss ! i) \<inter> set (xss ! j) \<noteq> {}"
          then obtain h where "h \<in> set (xss ! i)" "h \<in> set (xss ! j)" by auto
          with ih[of i] ih[of j] ij obtain m m' where
            "(h, (to @ [i]) @ m) \<in> set (gverts (mMappings rt))"
            "(h, (to @ [j]) @ m') \<in> set (gverts (mMappings rt))"
            by (metis less_trans)
          from vertex_value_unique[OF d this] ij(1) show False by simp
        qed
      qed
      moreover have "\<exists>m. (h, to @ m) \<in> set (gverts (mMappings rt)) \<and>
                          tree_isLeaf (mRefinements rt) (to @ m)" if "h \<in> set (concat xss)" for h
      proof -
        from that obtain ys where "ys \<in> set xss" "h \<in> set ys" by auto
        then obtain i where "i < length xss" "h \<in> set (xss ! i)"
          by (metis in_set_conv_nth)
        with ih[of i] obtain m where "(h, (to @ [i]) @ m) \<in> set (gverts (mMappings rt))"
          "tree_isLeaf (mRefinements rt) ((to @ [i]) @ m)" by blast
        then show ?thesis by (intro exI[of _ "[i] @ m"]) simp
      qed
      ultimately show ?thesis using xss(2) by blast
    qed
  qed
qed

text \<open>
  Claim C10.  On a well-formed graph the vector that \<open>image\<close> returns for an enclosure
  holds no vertex twice, and each of its vertices is the vertex of a leaf of the tree.
\<close>

theorem image_distinct_leaves:
  assumes "graph_ok (mMappings rt)" and "image_rt k rt from = Inr hs"
  shows "distinct hs \<and>
         (\<forall>h\<in>set hs. \<exists>leaf. graph_value (mMappings rt) h = Some leaf \<and>
                            tree_isLeaf (mRefinements rt) leaf)"
proof -
  from assms(1) have d: "distinct (map fst (gverts (mMappings rt)))"
    by (simp add: graph_ok_def)
  from imageRecursive_vertices[of k rt "from" tree_root hs] d assms(2)
  have "distinct hs"
    and "\<forall>h\<in>set hs. \<exists>m. (h, m) \<in> set (gverts (mMappings rt)) \<and> tree_isLeaf (mRefinements rt) m"
    by (simp_all add: image_rt_def tree_root_def)
  then show ?thesis using d by (auto simp: graph_value_def)
qed

theorem image_distinct_leaves_witness:
  "graph_ok (mMappings exampleRefinedTwice) \<and>
   image_rt exampleKernel exampleRefinedTwice (1, 3) = Inr [3, 4, 2] \<and>
   distinct [3, 4, 2::nat]"
proof -
  have ok: "graph_ok (mMappings exampleRefinedTwice)" unfolding graph_ok_def by code_simp
  have img: "image_rt exampleKernel exampleRefinedTwice (1, 3) = Inr [3, 4, 2]" by code_simp
  from image_distinct_leaves[OF ok img] ok img show ?thesis by simp
qed

section \<open>The graph after refine\<close>

lemma map_of_filter_key:
  "map_of (filter (\<lambda>(h, x). h \<noteq> v) xs) a = (if a = v then None else map_of xs a)"
  by (induction xs) auto

lemma graph_value_removeVertex:
  "graph_value (removeVertex g v) a = (if a = v then None else graph_value g a)"
  by (simp add: graph_value_def removeVertex_def map_of_filter_key)

lemma nodeValue_removeVertex:
  "a \<noteq> v \<Longrightarrow> nodeValue (rt\<lparr>mMappings := removeVertex (mMappings rt) v\<rparr>) a = nodeValue rt a"
  by (simp add: nodeValue_def graph_value_removeVertex split: option.splits)

lemma reaches_removeVertex:
  "a \<noteq> v \<Longrightarrow> b \<noteq> v \<Longrightarrow>
   reaches k (rt\<lparr>mMappings := removeVertex (mMappings rt) v\<rparr>) a b = reaches k rt a b"
  by (simp add: reaches_def isReachable_def nodeValue_removeVertex split: sum.splits)

lemma find_filter_same:
  "(\<And>x. x \<in> set xs \<Longrightarrow> P x \<Longrightarrow> Q x) \<Longrightarrow> find P (filter Q xs) = find P xs"
  by (induction xs) auto

lemma findVertex_removeVertex:
  "(v, tn) \<notin> set (gverts g) \<Longrightarrow> findVertex (removeVertex g v) tn = findVertex g tn"
proof -
  assume a: "(v, tn) \<notin> set (gverts g)"
  have "find (\<lambda>(h, x). x = tn) (filter (\<lambda>(h, x). h \<noteq> v) (gverts g)) =
        find (\<lambda>(h, x). x = tn) (gverts g)"
    by (rule find_filter_same) (use a in auto)
  then show ?thesis by (simp add: findVertex_def removeVertex_def)
qed

lemma leavesT_removeVertex:
  "\<forall>tn. (v, tn) \<in> set (gverts (mMappings rt)) \<longrightarrow> \<not> tree_isLeaf (mRefinements rt) tn \<Longrightarrow>
   leavesT (rt\<lparr>mMappings := removeVertex (mMappings rt) v\<rparr>) treep = leavesT rt treep"
proof (induction rt treep rule: leavesT.induct)
  case (1 rt treep)
  let ?rt' = "rt\<lparr>mMappings := removeVertex (mMappings rt) v\<rparr>"
  note unfold = leavesT.simps[of ?rt' treep] leavesT.simps[of rt treep]
  show ?case
  proof (cases "tree_value (mRefinements rt) treep")
    case None
    then show ?thesis unfolding unfold by simp
  next
    case (Some tv)
    show ?thesis
    proof (cases "tree_isLeaf (mRefinements rt) treep")
      case True
      with "1.prems" have "(v, treep) \<notin> set (gverts (mMappings rt))" by blast
      from findVertex_removeVertex[OF this] Some True show ?thesis unfolding unfold by simp
    next
      case False
      from "1.IH"[OF Some False _ "1.prems"]
      have m: "map (leavesT ?rt') (tree_children (mRefinements rt) treep) =
            map (leavesT rt) (tree_children (mRefinements rt) treep)"
        by simp
      from Some False show ?thesis unfolding unfold by (simp add: m)
    qed
  qed
qed

lemma graph_value_vertex:
  "graph_value g p = Some tn \<Longrightarrow> (p, tn) \<in> set (gverts g)"
  by (simp add: graph_value_def map_of_SomeD)

lemma preimage_vertices:
  "graph_ok (mMappings rt) \<Longrightarrow> p \<in> set (preimage rt v) \<Longrightarrow> p \<in> set (map fst (gverts (mMappings rt)))"
  by (auto simp: graph_ok_def preimage_def inEdges_def)

lemma postimage_vertices:
  "graph_ok (mMappings rt) \<Longrightarrow> p \<in> set (postimage rt v) \<Longrightarrow> p \<in> set (map fst (gverts (mMappings rt)))"
  by (auto simp: graph_ok_def postimage_def outEdges_def)

lemma refine_graph_change:
  assumes ok: "graph_ok (mMappings rt)" and run: "refine k rt v r = Inr rt'"
  shows "\<exists>treev.
           graph_value (mMappings rt) v = Some treev \<and>
           length (tree_children (mRefinements rt') treev) = branchN \<and>
           gverts (mMappings rt') =
             filter (\<lambda>(h, x). h \<noteq> v) (gverts (mMappings rt)) @
             zip [gnext (mMappings rt)..<gnext (mMappings rt) + branchN]
                 (tree_children (mRefinements rt') treev) \<and>
           (\<forall>a b. (a, b) \<in> set (gedges (mMappings rt')) \<longleftrightarrow>
                  a \<noteq> v \<and> b \<noteq> v \<and>
                  ((a, b) \<in> set (gedges (mMappings rt)) \<or>
                   (b \<in> {gnext (mMappings rt)..<gnext (mMappings rt) + branchN} \<and>
                    a \<in> descendantLeaves rt rt' (preimage rt v @ [v]) \<and> reaches k rt' a b) \<or>
                   (a \<in> {gnext (mMappings rt)..<gnext (mMappings rt) + branchN} \<and>
                    b \<in> descendantLeaves rt rt' (postimage rt v @ [v]) \<and> reaches k rt' a b)))"
proof -
  let ?g = "mMappings rt"
  let ?hs = "[gnext ?g..<gnext ?g + branchN]"
  from refine_steps[OF run] obtain treev tv expanded es where
    treev: "graph_value ?g v = Some treev" and
    tv: "tree_value (mRefinements rt) treev = Some tv" and
    len: "length (r (mEnclosure tv)) \<le> branchN" and
    ex: "tree_expand (mRefinements rt) treev (refinedValues k rt (r (mEnclosure tv))) = Some expanded" and
    loops: "addRefinedEdges k (refineExpanded rt treev expanded) ?hs
             (preimage rt v @ [v]) (postimage rt v @ [v]) =
             Inr (with_edges (refineExpanded rt treev expanded) es)" and
    rt': "rt' = (refineExpanded rt treev expanded)
                   \<lparr>mMappings := removeVertex (mMappings (with_edges (refineExpanded rt treev expanded) es)) v\<rparr>"
    by blast
  let ?rt2 = "refineExpanded rt treev expanded"
  let ?X = "with_edges ?rt2 es"
  let ?cs = "tree_children expanded treev"
  have rt'X: "rt' = ?X\<lparr>mMappings := removeVertex (mMappings ?X) v\<rparr>"
    unfolding rt' by (simp add: with_edges_def)
  have t': "mRefinements rt' = expanded" "mRefinements ?rt2 = expanded" "mRefinements ?X = expanded"
    by (simp_all add: rt' refineExpanded_def)
  have vals: "length (refinedValues k rt (r (mEnclosure tv))) = branchN"
    by (rule length_refinedValues[OF len])
  have cs: "length ?cs = branchN"
    using tree_expand_children(1)[OF ex] vals by simp
  have notleaf: "\<not> tree_isLeaf expanded treev"
    using tree_expand_children(4)[OF ex] vals by (auto simp: branchN_def)
  have d: "distinct (map fst (gverts ?g))" and below: "\<forall>h\<in>set (map fst (gverts ?g)). h < gnext ?g"
    using ok by (simp_all add: graph_ok_def)
  have vin: "(v, treev) \<in> set (gverts ?g)" by (rule graph_value_vertex[OF treev])
  then have vlt: "v < gnext ?g" using below by force
  then have vnew: "v \<notin> set ?hs" by simp
  have verts2: "gverts (mMappings ?X) = gverts ?g @ zip ?hs ?cs"
    by (simp add: refineExpanded_def)
  have ventries: "\<forall>tn. (v, tn) \<in> set (gverts (mMappings ?X)) \<longrightarrow> \<not> tree_isLeaf (mRefinements ?X) tn"
  proof (intro allI impI)
    fix tn assume "(v, tn) \<in> set (gverts (mMappings ?X))"
    then have "(v, tn) \<in> set (gverts ?g)"
      unfolding verts2 using vnew by (auto dest: set_zip_leftD)
    with vin d have "tn = treev" by (meson eq_key_imp_eq_value)
    with notleaf show "\<not> tree_isLeaf (mRefinements ?X) tn" by (simp add: t')
  qed
  have leaves_same: "leavesT rt' treep = leavesT ?rt2 treep" for treep
    unfolding rt'X using leavesT_removeVertex[OF ventries, of treep] by simp
  have value2: "graph_value (mMappings ?rt2) p = graph_value ?g p"
    if "p \<in> set (map fst (gverts ?g))" for p
  proof -
    from that have "p \<in> dom (map_of (gverts ?g))" by (simp add: dom_map_of_conv_image_fst)
    then show ?thesis
      by (auto simp: graph_value_def refineExpanded_def map_add_def split: option.splits)
  qed
  have below_same: "leavesBelow ?rt2 ps = descendantLeaves rt rt' ps"
    if "set ps \<subseteq> set (map fst (gverts ?g))" for ps
  proof -
    have "(\<exists>ls. leavesV ?rt2 p = Inr ls \<and> l \<in> set ls) =
          (\<exists>treep ls. graph_value ?g p = Some treep \<and> leavesT rt' treep = Inr ls \<and> l \<in> set ls)"
      if "p \<in> set ps" for p l
    proof -
      from that \<open>set ps \<subseteq> set (map fst (gverts ?g))\<close>
      have "p \<in> set (map fst (gverts ?g))" by blast
      from value2[OF this] show ?thesis
        by (simp add: leavesV_def leaves_same split: option.splits)
    qed
    then show ?thesis by (auto simp: leavesBelow_def descendantLeaves_def)
  qed
  have vmem: "v \<in> set (map fst (gverts ?g))" using vin by force
  have pres: "leavesBelow ?rt2 (preimage rt v @ [v]) = descendantLeaves rt rt' (preimage rt v @ [v])"
    by (rule below_same) (use vmem preimage_vertices[OF ok] in auto)
  have posts: "leavesBelow ?rt2 (postimage rt v @ [v]) = descendantLeaves rt rt' (postimage rt v @ [v])"
    by (rule below_same) (use vmem postimage_vertices[OF ok] in auto)
  have reach_same: "reaches k rt' a b = reaches k ?rt2 a b" if "a \<noteq> v" "b \<noteq> v" for a b
    unfolding rt'X using reaches_removeVertex[OF that, of k ?X] by simp
  from addRefinedEdges_edges[OF loops] obtain es' where
    "?X = with_edges ?rt2 es'" and
    es': "set es' = set (gedges (mMappings ?rt2)) \<union>
       {(l, c) | l c. c \<in> set ?hs \<and> l \<in> leavesBelow ?rt2 (preimage rt v @ [v]) \<and> reaches k ?rt2 l c} \<union>
       {(c, l) | l c. c \<in> set ?hs \<and> l \<in> leavesBelow ?rt2 (postimage rt v @ [v]) \<and> reaches k ?rt2 c l}"
    by blast
  then have "gedges (mMappings ?X) = gedges (mMappings (with_edges ?rt2 es'))" by simp
  then have "es' = es" by simp
  have old: "gedges (mMappings ?rt2) = gedges ?g" by (simp add: refineExpanded_def)
  have edges': "set (gedges (mMappings rt')) = {(a, b). (a, b) \<in> set es \<and> a \<noteq> v \<and> b \<noteq> v}"
    unfolding rt' by (auto simp: removeVertex_def)
  have edges: "(a, b) \<in> set (gedges (mMappings rt')) \<longleftrightarrow>
                  a \<noteq> v \<and> b \<noteq> v \<and>
                  ((a, b) \<in> set (gedges ?g) \<or>
                   (b \<in> {gnext ?g..<gnext ?g + branchN} \<and>
                    a \<in> descendantLeaves rt rt' (preimage rt v @ [v]) \<and> reaches k rt' a b) \<or>
                   (a \<in> {gnext ?g..<gnext ?g + branchN} \<and>
                    b \<in> descendantLeaves rt rt' (postimage rt v @ [v]) \<and> reaches k rt' a b))" for a b
  proof (cases "a \<noteq> v \<and> b \<noteq> v")
    case False
    then show ?thesis unfolding edges' by auto
  next
    case True
    then have "reaches k rt' a b = reaches k ?rt2 a b" using reach_same by simp
    with True show ?thesis
      unfolding edges' using es' unfolding \<open>es' = es\<close> old pres posts by auto
  qed
  have "filter (\<lambda>(h, x). h \<noteq> v) (zip ?hs ?cs) = zip ?hs ?cs"
    using vnew by (auto simp: filter_id_conv dest: set_zip_leftD)
  then have verts: "gverts (mMappings rt') =
             filter (\<lambda>(h, x). h \<noteq> v) (gverts ?g) @ zip ?hs (tree_children (mRefinements rt') treev)"
    unfolding rt' by (simp add: removeVertex_def refineExpanded_def)
  from treev cs verts edges t'(1) show ?thesis by blast
qed


text \<open>
  Claim C4.  A call \<open>refine( v, r )\<close> that returns on a well-formed graph removes the
  vertex \<open>v\<close> and adds one vertex for each of the \<open>N\<close> children of its tree node.  An
  edge is in the graph afterwards exactly when it does not touch \<open>v\<close> and either was
  there before, or leads to a new vertex \<open>c\<close> from a leaf \<open>p'\<close> below a member of the
  pre-image of \<open>v\<close> or below \<open>v\<close> itself with \<open>possibly( isReachable( p', c ) )\<close>, or
  leads from a new vertex \<open>c\<close> to a leaf \<open>s'\<close> below a member of the post-image of \<open>v\<close>
  or below \<open>v\<close> itself with \<open>possibly( isReachable( c, s' ) )\<close>.
\<close>

theorem refine_graph:
  assumes ok: "graph_ok (mMappings rt)" and run: "refine k rt v r = Inr rt'"
  shows "\<exists>treev.
           graph_value (mMappings rt) v = Some treev \<and>
           length (tree_children (mRefinements rt') treev) = branchN \<and>
           gverts (mMappings rt') =
             filter (\<lambda>(h, x). h \<noteq> v) (gverts (mMappings rt)) @
             zip [gnext (mMappings rt)..<gnext (mMappings rt) + branchN]
                 (tree_children (mRefinements rt') treev) \<and>
           (\<forall>a b. (a, b) \<in> set (gedges (mMappings rt')) \<longleftrightarrow>
                  a \<noteq> v \<and> b \<noteq> v \<and>
                  ((a, b) \<in> set (gedges (mMappings rt)) \<or>
                   (b \<in> {gnext (mMappings rt)..<gnext (mMappings rt) + branchN} \<and>
                    a \<in> descendantLeaves rt rt' (preimage rt v @ [v]) \<and> reaches k rt' a b) \<or>
                   (a \<in> {gnext (mMappings rt)..<gnext (mMappings rt) + branchN} \<and>
                    b \<in> descendantLeaves rt rt' (postimage rt v @ [v]) \<and> reaches k rt' a b)))"
  using refine_graph_change[OF ok run] .

theorem refine_graph_witness:
  "graph_ok (mMappings exampleRefined) \<and>
   refine exampleKernel exampleRefined 1 bisect = Inr exampleRefinedTwice \<and>
   gverts (mMappings exampleRefinedTwice) = [(2, [1]), (3, [0, 0]), (4, [0, 1])] \<and>
   (2, 4) \<in> set (gedges (mMappings exampleRefinedTwice)) \<and>
   2 \<in> descendantLeaves exampleRefined exampleRefinedTwice (preimage exampleRefined 1 @ [1]) \<and>
   reaches exampleKernel exampleRefinedTwice 2 4"
proof -
  have ok: "graph_ok (mMappings exampleRefined)" unfolding graph_ok_def by code_simp
  note run = exampleRefinedTwice_built
  from refine_graph[OF ok run] obtain treev where
    e: "\<And>a b. (a, b) \<in> set (gedges (mMappings exampleRefinedTwice)) \<longleftrightarrow>
           a \<noteq> 1 \<and> b \<noteq> 1 \<and>
           ((a, b) \<in> set (gedges (mMappings exampleRefined)) \<or>
            (b \<in> {gnext (mMappings exampleRefined)..<gnext (mMappings exampleRefined) + branchN} \<and>
             a \<in> descendantLeaves exampleRefined exampleRefinedTwice (preimage exampleRefined 1 @ [1]) \<and>
             reaches exampleKernel exampleRefinedTwice a b) \<or>
            (a \<in> {gnext (mMappings exampleRefined)..<gnext (mMappings exampleRefined) + branchN} \<and>
             b \<in> descendantLeaves exampleRefined exampleRefinedTwice (postimage exampleRefined 1 @ [1]) \<and>
             reaches exampleKernel exampleRefinedTwice a b))"
    by blast
  have new: "(2, 4) \<in> set (gedges (mMappings exampleRefinedTwice))" by code_simp
  have old: "(2, 4) \<notin> set (gedges (mMappings exampleRefined))" by code_simp
  have gn: "gnext (mMappings exampleRefined) = 3" by code_simp
  have vs: "gverts (mMappings exampleRefinedTwice) = [(2, [1]), (3, [0, 0]), (4, [0, 1])]"
    by code_simp
  from e[of 2 4] new old gn
  have "2 \<in> descendantLeaves exampleRefined exampleRefinedTwice (preimage exampleRefined 1 @ [1]) \<and>
        reaches exampleKernel exampleRefinedTwice 2 4"
    by auto
  with ok run new vs show ?thesis by simp
qed

text \<open>
  Every refinement tree that the constructor and \<open>refine\<close> build has a well-formed
  graph.
\<close>

lemma leavesT_vertices:
  "leavesT rt treep = Inr ls \<Longrightarrow> set ls \<subseteq> set (map fst (gverts (mMappings rt)))"
proof (induction rt treep arbitrary: ls rule: leavesT.induct)
  case (1 rt treep)
  from "1.prems" obtain tv where tv: "tree_value (mRefinements rt) treep = Some tv"
    unfolding leavesT.simps[of rt treep] by (auto split: option.splits)
  show ?case
  proof (cases "tree_isLeaf (mRefinements rt) treep")
    case True
    with "1.prems" tv obtain h where "findVertex (mMappings rt) treep = Some h" "ls = [h]"
      unfolding leavesT.simps[of rt treep] by (auto split: option.splits)
    with findVertex_Some[of "mMappings rt" treep h] show ?thesis by force
  next
    case False
    let ?cs = "tree_children (mRefinements rt) treep"
    from "1.prems" tv False have "collect (map (leavesT rt) ?cs) = Inr ls"
      unfolding leavesT.simps[of rt treep] by simp
    from collect_Inr_D[OF this] obtain xss where
      xss: "map (leavesT rt) ?cs = map Inr xss" "ls = concat xss" by blast
    have "set xs \<subseteq> set (map fst (gverts (mMappings rt)))" if "xs \<in> set xss" for xs
    proof -
      from that have "Inr xs \<in> set (map (leavesT rt) ?cs)" unfolding xss(1) by simp
      then obtain c where "c \<in> set ?cs" "leavesT rt c = Inr xs" by auto
      from "1.IH"[OF tv False this] show ?thesis .
    qed
    with xss(2) show ?thesis by auto
  qed
qed

lemma graph_ok_newRefinementTree:
  "newRefinementTree k initial constrs dyn effort = Inr rt \<Longrightarrow> graph_ok (mMappings rt)"
  by (auto simp: newRefinementTree_def Let_def addVertex_def emptyGraph_def addEdge_def
      graph_ok_def split: sum.splits if_splits)

lemma graph_ok_refine:
  assumes ok: "graph_ok (mMappings rt)" and run: "refine k rt v r = Inr rt'"
  shows "graph_ok (mMappings rt')"
proof -
  let ?g = "mMappings rt"
  let ?hs = "[gnext ?g..<gnext ?g + branchN]"
  from refine_graph_change[OF ok run] obtain treev where
    cs: "length (tree_children (mRefinements rt') treev) = branchN" and
    verts: "gverts (mMappings rt') =
             filter (\<lambda>(h, x). h \<noteq> v) (gverts ?g) @ zip ?hs (tree_children (mRefinements rt') treev)" and
    edges: "\<And>a b. (a, b) \<in> set (gedges (mMappings rt')) \<longleftrightarrow>
                  a \<noteq> v \<and> b \<noteq> v \<and>
                  ((a, b) \<in> set (gedges ?g) \<or>
                   (b \<in> {gnext ?g..<gnext ?g + branchN} \<and>
                    a \<in> descendantLeaves rt rt' (preimage rt v @ [v]) \<and> reaches k rt' a b) \<or>
                   (a \<in> {gnext ?g..<gnext ?g + branchN} \<and>
                    b \<in> descendantLeaves rt rt' (postimage rt v @ [v]) \<and> reaches k rt' a b))"
    by blast
  from refine_steps[OF run] have next': "gnext (mMappings rt') = gnext ?g + branchN"
    by (auto simp: refineExpanded_def removeVertex_def with_edges_def)
  have d: "distinct (map fst (gverts ?g))" and below: "\<forall>h\<in>set (map fst (gverts ?g)). h < gnext ?g"
    and inside: "\<forall>e\<in>set (gedges ?g). fst e \<in> set (map fst (gverts ?g)) \<and> snd e \<in> set (map fst (gverts ?g))"
    using ok by (simp_all add: graph_ok_def)
  have keys: "map fst (gverts (mMappings rt')) = filter (\<lambda>h. h \<noteq> v) (map fst (gverts ?g)) @ ?hs"
    unfolding verts using cs by (simp add: filter_map comp_def case_prod_unfold)
  have 1: "distinct (map fst (gverts (mMappings rt')))"
    unfolding keys using d below by (auto simp: distinct_map_filter)
  have 2: "\<forall>h\<in>set (map fst (gverts (mMappings rt'))). h < gnext (mMappings rt')"
    unfolding keys next' using below by (auto simp: branchN_def)
  have leafv: "l \<in> set (map fst (gverts (mMappings rt')))" if "l \<in> descendantLeaves rt rt' ps" for l ps
    using that leavesT_vertices[of rt'] unfolding descendantLeaves_def by blast
  have 3: "fst e \<in> set (map fst (gverts (mMappings rt'))) \<and> snd e \<in> set (map fst (gverts (mMappings rt')))"
    if "e \<in> set (gedges (mMappings rt'))" for e
  proof -
    obtain a b where e: "e = (a, b)" by (cases e)
    from that[unfolded e edges] have nv: "a \<noteq> v" "b \<noteq> v" and
      c: "(a, b) \<in> set (gedges ?g) \<or>
          (b \<in> {gnext ?g..<gnext ?g + branchN} \<and> a \<in> descendantLeaves rt rt' (preimage rt v @ [v])) \<or>
          (a \<in> {gnext ?g..<gnext ?g + branchN} \<and> b \<in> descendantLeaves rt rt' (postimage rt v @ [v]))"
      by auto
    from c show ?thesis
    proof (elim disjE conjE)
      assume "(a, b) \<in> set (gedges ?g)"
      with inside have "a \<in> set (map fst (gverts ?g))" "b \<in> set (map fst (gverts ?g))" by force+
      with nv show ?thesis unfolding keys e by simp
    next
      assume "b \<in> {gnext ?g..<gnext ?g + branchN}" "a \<in> descendantLeaves rt rt' (preimage rt v @ [v])"
      with leafv[of a] show ?thesis unfolding e by (simp add: keys)
    next
      assume "a \<in> {gnext ?g..<gnext ?g + branchN}" "b \<in> descendantLeaves rt rt' (postimage rt v @ [v])"
      with leafv[of b] show ?thesis unfolding e by (simp add: keys)
    qed
  qed
  from 1 2 3 show ?thesis unfolding graph_ok_def by blast
qed

text \<open>
  The condition of the search on the graph holds of the tree of refinementTree.hpp when
  its graph is well-formed, every vertex has a tree value, box equality is exact and no
  two vertices hold the same box.
\<close>

lemma treeApi_graph_closed:
  assumes ok: "graph_ok (mMappings rt)"
    and exact: "\<And>a b. definitely (box_eq_check k a b (mEffort rt)) = (a = b)"
    and boxes: "\<And>h1 h2 tv1 tv2. nodeValue rt h1 = Inr tv1 \<Longrightarrow> nodeValue rt h2 = Inr tv2 \<Longrightarrow>
                 mEnclosure tv1 = mEnclosure tv2 \<Longrightarrow> h1 = h2"
    and valued: "\<And>h. h \<in> set (map fst (gverts (mMappings rt))) \<Longrightarrow> \<exists>tv. nodeValue rt h = Inr tv"
  shows "graph_closed (treeApi k) rt (map fst (gverts (mMappings rt)))"
proof -
  let ?V = "map fst (gverts (mMappings rt))"
  have "set (rt_postimage (treeApi k) rt n) \<subseteq> set ?V" for n
    using postimage_vertices[OF ok, of _ n] by (auto simp: treeApi_def)
  moreover have "rt_equal (treeApi k) rt a b = (a = b)" if "a \<in> set ?V" "b \<in> set ?V" for a b
  proof -
    from valued[OF that(1)] valued[OF that(2)] obtain tva tvb where
      v: "nodeValue rt a = Inr tva" "nodeValue rt b = Inr tvb" by blast
    then have "rt_equal (treeApi k) rt a b = (mEnclosure tva = mEnclosure tvb)"
      by (simp add: treeApi_def nodesEqual_def exact)
    also have "\<dots> = (a = b)" using boxes[OF v] v by auto
    finally show ?thesis .
  qed
  ultimately show ?thesis unfolding graph_closed_def by blast
qed

section \<open>Properties of nodeValue\<close>

text \<open>
  \<open>nodeValue\<close> either throws or returns the tree value of the tree node that the
  vertex stores; it has no empty result.
\<close>

lemma nodeValue_cases:
  "nodeValue rt v = Inl InvalidHandle \<or>
   (\<exists>treev tv. graph_value (mMappings rt) v = Some treev \<and>
               tree_value (mRefinements rt) treev = Some tv \<and> nodeValue rt v = Inr tv)"
  by (auto simp: nodeValue_def split: option.splits)


end
